theory Spec2Isabelle
  imports Main "HOL-Library.Word" "HOL-Library.Sublist"
begin

section \<open>The streaming protobuf encoder (package proto, src/client/client.go)\<close>

text \<open>
  The encoder of the source file is embedded function by function, with explicit state
  passing: every method of \<^verbatim>\<open>*Encoder\<close> takes the encoder record and returns the updated
  one, together with the error it returns (\<open>None\<close> is Go's \<^verbatim>\<open>nil\<close>). A state is
  returned on the error paths too, because a Go method that fails has still performed the
  writes that came before the failure.

  Collaborators whose code is not part of the source file (the protobuf library, the
  timestamp, float and integer sub-coders, the hash function, the options) are the fields
  of the record \<open>env\<close>: every theorem holds for each behaviour they may have. The
  sub-coders write through the append-only API of the output stream, so each of them is
  a function that returns the bits it appends.
\<close>

subsection \<open>Basic types\<close>

type_synonym byte = "8 word"
type_synonym time = int
type_synonym xtimeUnit = nat

text \<open>
  The errors of the encoder. \<^verbatim>\<open>fmt.Errorf\<close> with a \<^verbatim>\<open>%v\<close> of another error is a
  constructor that carries that error. \<open>errExternal\<close> is an error value made by a
  collaborator. \<open>panicIndexOutOfRange i n\<close> is the Go run-time panic of an index \<open>i\<close> out
  of the range of a slice of length \<open>n\<close>, \<open>panicNilPointer\<close> the one of a nil
  dereference: a panic unwinds through every caller, and no \<^verbatim>\<open>err != nil\<close> test sees them.
\<close>

datatype error =
    errEncoderSchemaIsRequired
  | errEncoderMessageHasUnknownFields
  | errEncoderClosed
  | errNoEncodedDatapoints
  | errExternal nat
  | errUnusableDueToHardErr error
  | errUnmarshalingAnnotation error
  | errEncodingTimestamp error
  | errEncodingProto error
  | errGetFieldNumber int
  | errUnknownTypeInField int
  | errNoLogicForField int
  | errCheckingLastDictBytes error
  | errCheckingDictBytes error
  | errLRUOutsideStream nat nat nat
  | errClearingField error int
  | errCheckingDefault error int
  | errSettingField error int
  | errMarshal error
  | panicIndexOutOfRange int nat
  | panicNilPointer

fun isPanic :: "error \<Rightarrow> bool" where
  "isPanic (panicIndexOutOfRange i n) = True"
| "isPanic panicNilPointer = True"
| "isPanic _ = False"

definition panicked :: "error option \<Rightarrow> bool" where
  "panicked r = (case r of None \<Rightarrow> False | Some e \<Rightarrow> isPanic e)"

text \<open>Sequencing of two fallible steps on a state: the second runs only if the first
  returned no error.\<close>

definition andThen :: "error option \<times> 's \<Rightarrow> ('s \<Rightarrow> error option \<times> 's) \<Rightarrow> error option \<times> 's" where
  "andThen r f = (case r of (None, s) \<Rightarrow> f s | (Some e, s) \<Rightarrow> (Some e, s))"

subsection \<open>The bit-stream writer\<close>

text \<open>
  Modelled from the spec: \<^verbatim>\<open>encoding.OStream\<close> is declared outside the source file.
  Section 4.A: a growable buffer addressed at bit granularity, \<^verbatim>\<open>WriteBit\<close>,
  \<^verbatim>\<open>WriteBits(value, n)\<close> MSB-first, \<^verbatim>\<open>WriteBytes\<close>, \<^verbatim>\<open>Len()\<close>,
  \<^verbatim>\<open>RawBytes()\<close> giving the byte slice and the bit position within the last byte,
  \<^verbatim>\<open>Reset\<close> and \<^verbatim>\<open>Discard\<close>. The stream is the list of the bits written so far;
  \<^verbatim>\<open>WriteBytes\<close> appends the eight bits of each byte at the current position, which
  the encoder relies on where it writes a varint after control bits.

  The unit of \<^verbatim>\<open>Len()\<close> is the one that the source file uses:
  \<^verbatim>\<open>segment\<close> passes \<^verbatim>\<open>enc.stream.Len()\<close> as the capacity, in bytes, of
  the buffer that receives the bytes of \<^verbatim>\<open>Rawbytes()\<close>, and \<^verbatim>\<open>Stats\<close> stores it in
  the field \<^verbatim>\<open>CompressedBytes\<close>. So \<open>streamLen\<close> is the number of bytes of the buffer:
  the number of bits written, divided by 8 and rounded up.
\<close>

type_synonym ostream = "bool list"

definition bitsOfWord :: "'a::len word \<Rightarrow> nat \<Rightarrow> bool list" where
  "bitsOfWord v n = rev (map (bit v) [0..<n])"

definition byteBits :: "byte \<Rightarrow> bool list" where
  "byteBits b = bitsOfWord b 8"

definition byteOfBits :: "bool list \<Rightarrow> byte" where
  "byteOfBits bs = horner_sum of_bool 2 (rev (take 8 (bs @ replicate 8 False)))"

fun bitsToBytes :: "bool list \<Rightarrow> byte list" where
  "bitsToBytes [] = []"
| "bitsToBytes (b # bs) = byteOfBits (b # take 7 bs) # bitsToBytes (drop 7 bs)"

definition bytesToBits :: "byte list \<Rightarrow> bool list" where
  "bytesToBits bs = concat (map byteBits bs)"

definition WriteBit :: "bool \<Rightarrow> ostream \<Rightarrow> ostream" where
  "WriteBit b os = os @ [b]"

definition WriteBits :: "64 word \<Rightarrow> nat \<Rightarrow> ostream \<Rightarrow> ostream" where
  "WriteBits v n os = os @ bitsOfWord v n"

definition WriteBytes :: "byte list \<Rightarrow> ostream \<Rightarrow> ostream" where
  "WriteBytes bs os = os @ bytesToBits bs"

definition Rawbytes :: "ostream \<Rightarrow> byte list \<times> nat" where
  "Rawbytes os = (bitsToBytes os, length os mod 8)"

definition streamLen :: "ostream \<Rightarrow> int" where
  "streamLen os = int (length (fst (Rawbytes os)))"

text \<open>
  Modelled from the spec: the op codes are constants declared outside the source file.
  Section 6.1 gives their values: continue \<open>0\<close>, break marker \<open>1\<close>, not-end-of-stream
  \<open>1\<close>, the time-unit and schema bits, no-change \<open>0\<close>, changed \<open>1\<close>, LRU index \<open>0\<close>,
  new literal \<open>1\<close>, the residual default-bitset marker, and the bitset and bool bits.
\<close>

definition opCodeMoreData :: bool where "opCodeMoreData = False"
definition opCodeNoMoreDataOrTimeUnitChangeAndOrSchemaChange :: bool where
  "opCodeNoMoreDataOrTimeUnitChangeAndOrSchemaChange = True"
definition opCodeTimeUnitChangeAndOrSchemaChange :: bool where
  "opCodeTimeUnitChangeAndOrSchemaChange = True"
definition opCodeTimeUnitChange :: bool where "opCodeTimeUnitChange = True"
definition opCodeTimeUnitUnchanged :: bool where "opCodeTimeUnitUnchanged = False"
definition opCodeSchemaChange :: bool where "opCodeSchemaChange = True"
definition opCodeSchemaUnchanged :: bool where "opCodeSchemaUnchanged = False"
definition opCodeNoChange :: bool where "opCodeNoChange = False"
definition opCodeChange :: bool where "opCodeChange = True"
definition opCodeInterpretSubsequentBitsAsLRUIndex :: bool where
  "opCodeInterpretSubsequentBitsAsLRUIndex = False"
definition opCodeInterpretSubsequentBitsAsBytesLengthVarInt :: bool where
  "opCodeInterpretSubsequentBitsAsBytesLengthVarInt = True"
definition opCodeNoFieldsSetToDefaultProtoMarshal :: bool where
  "opCodeNoFieldsSetToDefaultProtoMarshal = False"
definition opCodeFieldsSetToDefaultProtoMarshal :: bool where
  "opCodeFieldsSetToDefaultProtoMarshal = True"
definition opCodeBitsetValueIsNotSet :: bool where "opCodeBitsetValueIsNotSet = False"
definition opCodeBitsetValueIsSet :: bool where "opCodeBitsetValueIsSet = True"
definition opCodeBoolTrue :: bool where "opCodeBoolTrue = True"
definition opCodeBoolFalse :: bool where "opCodeBoolFalse = False"

text \<open>
  Modelled from the spec: \<^verbatim>\<open>numBitsRequiredForNumUpToN\<close> is a helper declared outside
  the source file. Section 4.D, step 4: the LRU index takes \<open>\<lceil>log\<^sub>2 capacity\<rceil>\<close> bits.
\<close>

fun ceilLog2 :: "nat \<Rightarrow> nat" where
  "ceilLog2 n = (if n \<le> 1 then 0 else Suc (ceilLog2 ((n + 1) div 2)))"

declare ceilLog2.simps [simp del]

definition numBitsRequiredForNumUpToN :: "int \<Rightarrow> nat" where
  "numBitsRequiredForNumUpToN n = ceilLog2 (nat n)"

subsection \<open>Varints\<close>

text \<open>
  \<^verbatim>\<open>binary.PutUvarint\<close> of the Go standard library: seven payload bits per byte, least
  significant group first, the high bit set on every byte but the last.
\<close>

function putUvarint :: "64 word \<Rightarrow> byte list" where
  "putUvarint x =
     (if x < 0x80 then [ucast x]
      else (or (ucast x) 0x80) # putUvarint (drop_bit 7 x))"
  by pat_completeness auto
termination
proof (relation "measure unat")
  show "wf (measure unat)" by simp
next
  fix x :: "64 word"
  assume "\<not> x < 0x80"
  then have "x \<noteq> 0" by auto
  then have "0 < unat x" by (simp add: unat_gt_0)
  then have "unat x div 2 ^ 7 < unat x" by simp
  then show "(drop_bit 7 x, x) \<in> measure unat"
    by (simp add: unat_drop_bit_eq drop_bit_eq_div unat_div)
qed

declare putUvarint.simps [simp del]


subsection \<open>Schemas, messages and values\<close>

text \<open>
  Modelled from the spec: \<^verbatim>\<open>customFieldType\<close>, its predicates and
  \<^verbatim>\<open>customAndProtoFields\<close> are declared outside the source file. Section 3: a field
  is custom-encoded when its type is one of double, float, a signed or an unsigned
  integer of 8, 16, 32 or 64 bits, bytes/string or bool, and residual otherwise; custom
  fields are sorted ascending by field number, residual fields keep the descriptor's
  order. The integer fields carry their width.
\<close>

datatype customFieldType =
    notCustomEncodedField
  | doubleField
  | floatField
  | signedIntField nat
  | unsignedIntField nat
  | bytesField
  | boolField

fun isCustomFloatEncodedField :: "customFieldType \<Rightarrow> bool" where
  "isCustomFloatEncodedField doubleField = True"
| "isCustomFloatEncodedField floatField = True"
| "isCustomFloatEncodedField _ = False"

fun isCustomIntEncodedField :: "customFieldType \<Rightarrow> bool" where
  "isCustomIntEncodedField (signedIntField w) = True"
| "isCustomIntEncodedField (unsignedIntField w) = True"
| "isCustomIntEncodedField _ = False"

fun isUnsignedInt :: "customFieldType \<Rightarrow> bool" where
  "isUnsignedInt (unsignedIntField w) = True"
| "isUnsignedInt _ = False"

text \<open>
  A field of a message descriptor: its number, and the custom type its protobuf type
  maps to (\<open>notCustomEncodedField\<close> for nested messages, enums, repeated fields, maps).
  \<^verbatim>\<open>namespace.SchemaDescr\<close> yields the deploy id and the message descriptor.
\<close>

record fieldDescriptor =
  fdNumber :: int
  fdCustomType :: customFieldType

type_synonym messageDescriptor = "fieldDescriptor list"

record schemaDescr =
  DeployId :: string
  MessageDescriptor :: messageDescriptor

text \<open>
  The dynamic values that \<^verbatim>\<open>TryGetFieldByNumber\<close> hands out as \<^verbatim>\<open>interface{}\<close>:
  the Go types that the type switches of the encoder distinguish, floats as their
  IEEE-754 bit patterns, and \<open>VOther\<close> for every other dynamic type.
\<close>

datatype goValue =
    VFloat64 "64 word"
  | VFloat32 "32 word"
  | VUint64 "64 word"
  | VUint32 "32 word"
  | VInt64 "64 word"
  | VInt32 "32 word"
  | VBytes "byte list"
  | VString "byte list"
  | VBool bool
  | VOther nat

record datapoint =
  Timestamp :: time
  Value :: "64 word"

subsection \<open>Per-field state\<close>

record encoderBytesFieldDictState =
  hash :: "64 word"
  startPos :: nat
  lengthD :: nat

record ('f, 'i) customFieldState =
  fieldNum :: int
  fieldType :: customFieldType
  floatEncAndIter :: 'f
  intEncAndIter :: 'i
  bytesFieldDict :: "encoderBytesFieldDictState list"

subsection \<open>The collaborators\<close>

text \<open>
  \<open>'m\<close> is \<^verbatim>\<open>*dynamic.Message\<close>, \<open>'t\<close> the state of \<^verbatim>\<open>m3tsz.TimestampEncoder\<close>,
  \<open>'f\<close> and \<open>'i\<close> the states of the float and the integer coder of a field. The
  options come first; then the protobuf library (a method that mutates its receiver
  returns the new receiver), the helpers \<^verbatim>\<open>fieldsEqual\<close> and \<^verbatim>\<open>isDefaultValue\<close>,
  the sub-coders (each is given the stream and returns the bits it appends), the numeric
  value of a custom type with the width it is written in, and the widening of a
  \<^verbatim>\<open>float32\<close> to a \<^verbatim>\<open>float64\<close>.
\<close>

record ('m, 't, 'f, 'i) env =
  ByteFieldDictionaryLRUSize :: int
  hasEncoderPool :: bool
  hasSegmentReaderPool :: bool
  DefaultTimeUnit :: xtimeUnit
  Sum64 :: "byte list \<Rightarrow> 64 word"
  NewMessage :: "messageDescriptor \<Rightarrow> 'm"
  Unmarshal :: "'m \<Rightarrow> byte list \<Rightarrow> error option \<times> 'm"
  GetUnknownFields :: "'m \<Rightarrow> byte list"
  TryGetFieldByNumber :: "'m \<Rightarrow> int \<Rightarrow> error + goValue"
  GetFieldByNumber :: "'m \<Rightarrow> int \<Rightarrow> goValue"
  TryClearFieldByNumber :: "'m \<Rightarrow> int \<Rightarrow> error option \<times> 'm"
  TrySetFieldByNumber :: "'m \<Rightarrow> int \<Rightarrow> goValue \<Rightarrow> error option \<times> 'm"
  MarshalAppend :: "'m \<Rightarrow> error + byte list"
  fieldsEqual :: "goValue \<Rightarrow> goValue \<Rightarrow> bool"
  isDefaultValue :: "messageDescriptor \<Rightarrow> int \<Rightarrow> goValue \<Rightarrow> error + bool"
  NewTimestampEncoder :: "time \<Rightarrow> xtimeUnit \<Rightarrow> 't"
  TimeUnit :: "'t \<Rightarrow> xtimeUnit"
  WriteTimeUnit :: "'t \<Rightarrow> ostream \<Rightarrow> xtimeUnit \<Rightarrow> 't \<times> bool list"
  WriteTime :: "'t \<Rightarrow> ostream \<Rightarrow> time \<Rightarrow> xtimeUnit \<Rightarrow> error option \<times> 't \<times> bool list"
  newFloatEncAndIter :: 'f
  WriteFloat :: "'f \<Rightarrow> ostream \<Rightarrow> 64 word \<Rightarrow> 'f \<times> bool list"
  newIntEncAndIter :: 'i
  encodeUnsignedIntValue :: "'i \<Rightarrow> ostream \<Rightarrow> 64 word \<Rightarrow> 'i \<times> bool list"
  encodeSignedIntValue :: "'i \<Rightarrow> ostream \<Rightarrow> 64 word \<Rightarrow> 'i \<times> bool list"
  customTypeBits :: "customFieldType \<Rightarrow> 64 word"
  numBitsToEncodeCustomType :: nat
  float32to64 :: "32 word \<Rightarrow> 64 word"

subsection \<open>The encoder\<close>

text \<open>
  The fields of \<^verbatim>\<open>Encoder\<close>. \<^verbatim>\<open>opts\<close> is the \<open>env\<close>; the scratch buffers
  \<^verbatim>\<open>varIntBuf\<close>, \<^verbatim>\<open>changedValues\<close> and \<^verbatim>\<open>fieldsChangedToDefault\<close> are truncated
  before each use and hold nothing between calls, so they are not fields of the record.
  The counters are Go \<^verbatim>\<open>int\<close>s (64 bits), which a count of samples or of bytes held
  in memory does not overflow: they are \<open>int\<close> here.
\<close>

record encoderStats =
  uncompressedBytes :: int

record ('m, 't, 'f, 'i) encoder =
  stream :: ostream
  schemaDesc :: "schemaDescr option"
  schema :: "messageDescriptor option"
  numEncoded :: int
  lastEncodedDP :: datapoint
  lastEncoded :: "'m option"
  customFields :: "('f, 'i) customFieldState list"
  protoFields :: "int list"
  marshalBuf :: "byte list"
  unmarshaled :: "'m option"
  hardErr :: "error option"
  hasEncodedSchema :: bool
  closed :: bool
  stats :: encoderStats
  timestampEncoder :: 't


definition IncUncompressedBytes :: "int \<Rightarrow> encoderStats \<Rightarrow> encoderStats" where
  "IncUncompressedBytes x s = s\<lparr>uncompressedBytes := uncompressedBytes s + x\<rparr>"

text \<open>
  \<^verbatim>\<open>customAndProtoFields\<close> (modelled from the spec, section 4.E): the custom fields
  get a fresh coder state each and are sorted by field number; the other field numbers
  are the residual fields, in the descriptor's order.
\<close>

definition newCustomFieldState ::
  "('m, 't, 'f, 'i) env \<Rightarrow> fieldDescriptor \<Rightarrow> ('f, 'i) customFieldState" where
  "newCustomFieldState env fd =
     \<lparr>fieldNum = fdNumber fd, fieldType = fdCustomType fd,
      floatEncAndIter = newFloatEncAndIter env, intEncAndIter = newIntEncAndIter env,
      bytesFieldDict = []\<rparr>"

definition customAndProtoFields ::
  "('m, 't, 'f, 'i) env \<Rightarrow> messageDescriptor \<Rightarrow> ('f, 'i) customFieldState list \<times> int list" where
  "customAndProtoFields env sch =
     (sort_key fieldNum
        (map (newCustomFieldState env)
           (filter (\<lambda>fd. fdCustomType fd \<noteq> notCustomEncodedField) sch)),
      map fdNumber (filter (\<lambda>fd. fdCustomType fd = notCustomEncodedField) sch))"


subsection \<open>Usability, varints, padding\<close>

definition isUsable :: "('m, 't, 'f, 'i) encoder \<Rightarrow> error option" where
  "isUsable enc =
     (if closed enc then Some errEncoderClosed
      else case hardErr enc of
             Some e \<Rightarrow> Some (errUnusableDueToHardErr e)
           | None \<Rightarrow> None)"

text \<open>
  \<^verbatim>\<open>encodeVarInt\<close> puts the varint into \<^verbatim>\<open>varIntBuf\<close>, an array of 8 bytes, and
  writes the bytes used. A value of \<open>2\<^sup>5\<^sup>6\<close> or more needs a ninth byte:
  \<^verbatim>\<open>PutUvarint\<close> then indexes the buffer at 8 and panics, before anything is written.
\<close>

definition encodeVarInt ::
  "64 word \<Rightarrow> ('m, 't, 'f, 'i) encoder \<Rightarrow> error option \<times> ('m, 't, 'f, 'i) encoder" where
  "encodeVarInt x enc =
     (if x < 2 ^ 56 then (None, enc\<lparr>stream := WriteBytes (putUvarint x) (stream enc)\<rparr>)
      else (Some (panicIndexOutOfRange 8 8), enc))"

definition currentEncodingSchemeVersion :: "64 word" where
  "currentEncodingSchemeVersion = 1"

definition encodeStreamHeader ::
  "('m, 't, 'f, 'i) env \<Rightarrow> ('m, 't, 'f, 'i) encoder \<Rightarrow> error option \<times> ('m, 't, 'f, 'i) encoder" where
  "encodeStreamHeader env enc =
     andThen (encodeVarInt currentEncodingSchemeVersion enc)
       (encodeVarInt (word_of_int (ByteFieldDictionaryLRUSize env)))"

function padLoop :: "nat \<Rightarrow> ostream \<Rightarrow> ostream" where
  "padLoop bitPos os =
     (if bitPos mod 8 \<noteq> 0 then padLoop (bitPos + 1) (WriteBit False os) else os)"
  by pat_completeness auto
termination
proof (relation "measure (\<lambda>(bitPos, os). (8 - bitPos mod 8) mod 8)")
  show "wf (measure (\<lambda>(bitPos, os). (8 - bitPos mod 8) mod 8))" by simp
next
  fix bitPos :: nat and os :: ostream
  assume nz: "bitPos mod 8 \<noteq> 0"
  have lt: "bitPos mod 8 < 8" by simp
  have "(bitPos + 1) mod 8 = (if Suc (bitPos mod 8) = 8 then 0 else Suc (bitPos mod 8))"
    by (simp add: mod_Suc)
  with nz lt have "(8 - (bitPos + 1) mod 8) mod 8 < (8 - bitPos mod 8) mod 8"
    by (auto split: if_splits)
  then show "((bitPos + 1, WriteBit False os), bitPos, os)
               \<in> measure (\<lambda>(bitPos, os). (8 - bitPos mod 8) mod 8)"
    by simp
qed

declare padLoop.simps [simp del]

definition padToNextByte :: "('m, 't, 'f, 'i) encoder \<Rightarrow> ('m, 't, 'f, 'i) encoder" where
  "padToNextByte enc = enc\<lparr>stream := padLoop (snd (Rawbytes (stream enc))) (stream enc)\<rparr>"

subsection \<open>The bytes dictionary\<close>

definition bytesMatchEncodedDictionaryValue ::
  "byte list \<Rightarrow> encoderBytesFieldDictState \<Rightarrow> byte list \<Rightarrow> error + bool" where
  "bytesMatchEncodedDictionaryValue streamBytes dictState currBytes =
     (let prevEncodedBytesStart = startPos dictState;
          prevEncodedBytesEnd = prevEncodedBytesStart + lengthD dictState
      in if prevEncodedBytesEnd > length streamBytes
         then Inl (errLRUOutsideStream (length streamBytes) prevEncodedBytesStart (lengthD dictState))
         else Inr (take (lengthD dictState) (drop prevEncodedBytesStart streamBytes) = currBytes))"

definition setBytesFieldDict ::
  "nat \<Rightarrow> encoderBytesFieldDictState list \<Rightarrow> ('m, 't, 'f, 'i) encoder \<Rightarrow> ('m, 't, 'f, 'i) encoder" where
  "setBytesFieldDict fieldIdx d enc =
     enc\<lparr>customFields :=
       (customFields enc)[fieldIdx := (customFields enc ! fieldIdx)\<lparr>bytesFieldDict := d\<rparr>]\<rparr>"

text \<open>The loop of \<^verbatim>\<open>moveToEndOfBytesDict\<close>: swap the entry with its right neighbour
  until it is the last one.\<close>

function moveLoop :: "nat \<Rightarrow> 'a list \<Rightarrow> 'a list" where
  "moveLoop j existing =
     (if j < length existing then
        (let nextIdx = j + 1 in
         if nextIdx \<ge> length existing then existing
         else moveLoop (j + 1) (existing[j := existing ! nextIdx, nextIdx := existing ! j]))
      else existing)"
  by pat_completeness auto
termination
  by (relation "measure (\<lambda>(j, existing). length existing - j)") auto

declare moveLoop.simps [simp del]

definition moveToEndOfBytesDict ::
  "nat \<Rightarrow> nat \<Rightarrow> ('m, 't, 'f, 'i) encoder \<Rightarrow> ('m, 't, 'f, 'i) encoder" where
  "moveToEndOfBytesDict fieldIdx i enc =
     setBytesFieldDict fieldIdx
       (moveLoop i (bytesFieldDict (customFields enc ! fieldIdx))) enc"

text \<open>The shift loop of \<^verbatim>\<open>addToBytesDict\<close>: every entry takes the value of its right
  neighbour.\<close>

function shiftLoop :: "nat \<Rightarrow> 'a list \<Rightarrow> 'a list" where
  "shiftLoop i existing =
     (if i < length existing then
        (let nextIdx = i + 1 in
         if nextIdx \<ge> length existing then existing
         else shiftLoop (i + 1) (existing[i := existing ! nextIdx]))
      else existing)"
  by pat_completeness auto
termination
  by (relation "measure (\<lambda>(i, existing). length existing - i)") auto

declare shiftLoop.simps [simp del]

text \<open>
  \<^verbatim>\<open>addToBytesDict\<close>. The last statement writes \<^verbatim>\<open>existing[len(existing)-1]\<close>: on
  an empty slice the index is \<open>-1\<close> and Go panics.
\<close>

definition addToBytesDict ::
  "('m, 't, 'f, 'i) env \<Rightarrow> nat \<Rightarrow> encoderBytesFieldDictState \<Rightarrow> ('m, 't, 'f, 'i) encoder
   \<Rightarrow> error option \<times> ('m, 't, 'f, 'i) encoder" where
  "addToBytesDict env fieldIdx state enc =
     (let existing = bytesFieldDict (customFields enc ! fieldIdx) in
      if int (length existing) < ByteFieldDictionaryLRUSize env
      then (None, setBytesFieldDict fieldIdx (existing @ [state]) enc)
      else let shifted = shiftLoop 0 existing in
           if length existing = 0
           then (Some (panicIndexOutOfRange (- 1) 0), setBytesFieldDict fieldIdx shifted enc)
           else (None, setBytesFieldDict fieldIdx (shifted[length existing - 1 := state]) enc))"

text \<open>The scan of \<^verbatim>\<open>encodeBytesValue\<close> over the dictionary, from index \<open>j\<close> on:
  the index of the first entry with the hash and the bytes, or the error of a check.\<close>

fun scanBytesDict ::
  "64 word \<Rightarrow> byte list \<Rightarrow> byte list \<Rightarrow> encoderBytesFieldDictState list \<Rightarrow> nat
   \<Rightarrow> error + nat option" where
  "scanBytesDict h streamBytes currBytes [] j = Inr None"
| "scanBytesDict h streamBytes currBytes (state # rest) j =
     (if h \<noteq> hash state then scanBytesDict h streamBytes currBytes rest (j + 1)
      else case bytesMatchEncodedDictionaryValue streamBytes state currBytes of
             Inl err \<Rightarrow> Inl err
           | Inr match \<Rightarrow>
               if \<not> match then scanBytesDict h streamBytes currBytes rest (j + 1)
               else Inr (Some j))"

text \<open>
  \<^verbatim>\<open>encodeBytesValue\<close>, in the three parts of its body: the assertion of the value
  to bytes, the part after the "bytes changed" control bit (the scan, then the index or
  the new literal), and the function itself with the check of the last entry.
\<close>

definition bytesOfValue :: "goValue \<Rightarrow> byte list option" where
  "bytesOfValue iVal = (case iVal of VBytes b \<Rightarrow> Some b | VString str \<Rightarrow> Some str | _ \<Rightarrow> None)"

definition encodeBytesLiteral ::
  "('m, 't, 'f, 'i) env \<Rightarrow> nat \<Rightarrow> 64 word \<Rightarrow> byte list \<Rightarrow> ('m, 't, 'f, 'i) encoder
   \<Rightarrow> error option \<times> ('m, 't, 'f, 'i) encoder" where
  "encodeBytesLiteral env i h currBytes enc1 =
     (let enc2 = enc1\<lparr>stream :=
            WriteBit opCodeInterpretSubsequentBitsAsBytesLengthVarInt (stream enc1)\<rparr>;
          len = length currBytes
      in andThen (encodeVarInt (word_of_nat len) enc2)
           (\<lambda>enc3.
              let enc4 = padToNextByte enc3;
                  bytePos = length (fst (Rawbytes (stream enc4)));
                  enc5 = enc4\<lparr>stream := WriteBytes currBytes (stream enc4)\<rparr>
              in addToBytesDict env i \<lparr>hash = h, startPos = bytePos, lengthD = len\<rparr> enc5))"

definition encodeBytesChanged ::
  "('m, 't, 'f, 'i) env \<Rightarrow> nat \<Rightarrow> 64 word \<Rightarrow> byte list \<Rightarrow> encoderBytesFieldDictState list
   \<Rightarrow> ('m, 't, 'f, 'i) encoder \<Rightarrow> error option \<times> ('m, 't, 'f, 'i) encoder" where
  "encodeBytesChanged env i h currBytes dict enc =
     (let enc1 = enc\<lparr>stream := WriteBit opCodeChange (stream enc)\<rparr>;
          streamBytes = fst (Rawbytes (stream enc1))
      in case scanBytesDict h streamBytes currBytes dict 0 of
           Inl err \<Rightarrow> (Some (errCheckingDictBytes err), enc1)
         | Inr found \<Rightarrow>
            (case found of
               Some j \<Rightarrow>
                 (None, moveToEndOfBytesDict i j
                    (enc1\<lparr>stream :=
                       WriteBits (word_of_nat j)
                         (numBitsRequiredForNumUpToN (ByteFieldDictionaryLRUSize env))
                         (WriteBit opCodeInterpretSubsequentBitsAsLRUIndex (stream enc1))\<rparr>))
             | None \<Rightarrow> encodeBytesLiteral env i h currBytes enc1))"

definition encodeBytesValue ::
  "('m, 't, 'f, 'i) env \<Rightarrow> nat \<Rightarrow> goValue \<Rightarrow> ('m, 't, 'f, 'i) encoder
   \<Rightarrow> error option \<times> ('m, 't, 'f, 'i) encoder" where
  "encodeBytesValue env i iVal enc =
     (let customField = customFields enc ! i in
      case bytesOfValue iVal of
        None \<Rightarrow> (Some (errUnknownTypeInField (fieldNum customField)), enc)
      | Some currBytes \<Rightarrow>
         let h = Sum64 env currBytes;
             dict = bytesFieldDict customField;
             numPreviousBytes = length dict;
             lastStateIdx = numPreviousBytes - 1
         in case (if numPreviousBytes > 0 \<and> h = hash (dict ! lastStateIdx)
                  then bytesMatchEncodedDictionaryValue
                         (fst (Rawbytes (stream enc))) (dict ! lastStateIdx) currBytes
                  else Inr False) of
              Inl err \<Rightarrow> (Some (errCheckingLastDictBytes err), enc)
            | Inr match \<Rightarrow>
               if match then (None, enc\<lparr>stream := WriteBit opCodeNoChange (stream enc)\<rparr>)
               else encodeBytesChanged env i h currBytes dict enc)"


subsection \<open>The other custom fields\<close>

definition encodeTSZValue ::
  "('m, 't, 'f, 'i) env \<Rightarrow> nat \<Rightarrow> goValue \<Rightarrow> ('m, 't, 'f, 'i) encoder
   \<Rightarrow> error option \<times> ('m, 't, 'f, 'i) encoder" where
  "encodeTSZValue env i iVal enc =
     (let customField = customFields enc ! i in
      case (case iVal of VFloat64 v \<Rightarrow> Some v
                       | VFloat32 v \<Rightarrow> Some (float32to64 env v)
                       | _ \<Rightarrow> None) of
        None \<Rightarrow> (Some (errUnknownTypeInField (fieldNum customField)), enc)
      | Some val \<Rightarrow>
         let (st, bits) = WriteFloat env (floatEncAndIter customField) (stream enc) val
         in (None, enc\<lparr>stream := stream enc @ bits,
                        customFields := (customFields enc)[i := customField\<lparr>floatEncAndIter := st\<rparr>]\<rparr>))"

text \<open>\<^verbatim>\<open>encodeIntValue\<close>: the type switch fills one of \<^verbatim>\<open>signedVal\<close> and
  \<^verbatim>\<open>unsignedVal\<close> and leaves the other 0; the field type chooses which is written.\<close>

definition encodeIntValue ::
  "('m, 't, 'f, 'i) env \<Rightarrow> nat \<Rightarrow> goValue \<Rightarrow> ('m, 't, 'f, 'i) encoder
   \<Rightarrow> error option \<times> ('m, 't, 'f, 'i) encoder" where
  "encodeIntValue env i iVal enc =
     (case (case iVal of VUint64 v \<Rightarrow> Some (0, v)
                       | VUint32 v \<Rightarrow> Some (0, ucast v)
                       | VInt64 v \<Rightarrow> Some (v, 0)
                       | VInt32 v \<Rightarrow> Some (scast v, 0)
                       | _ \<Rightarrow> None) of
        None \<Rightarrow> (Some (errUnknownTypeInField (fieldNum (customFields enc ! i))), enc)
      | Some (signedVal, unsignedVal) \<Rightarrow>
         let customField = customFields enc ! i;
             (st, bits) =
               (if isUnsignedInt (fieldType customField)
                then encodeUnsignedIntValue env (intEncAndIter customField) (stream enc) unsignedVal
                else encodeSignedIntValue env (intEncAndIter customField) (stream enc) signedVal)
         in (None, enc\<lparr>stream := stream enc @ bits,
                        customFields := (customFields enc)[i := customField\<lparr>intEncAndIter := st\<rparr>]\<rparr>))"

definition encodeBoolValue ::
  "nat \<Rightarrow> goValue \<Rightarrow> ('m, 't, 'f, 'i) encoder \<Rightarrow> error option \<times> ('m, 't, 'f, 'i) encoder" where
  "encodeBoolValue i val enc =
     (case val of
        VBool boolVal \<Rightarrow>
          (None, enc\<lparr>stream :=
             WriteBit (if boolVal then opCodeBoolTrue else opCodeBoolFalse) (stream enc)\<rparr>)
      | _ \<Rightarrow> (Some (errUnknownTypeInField (fieldNum (customFields enc ! i))), enc))"

text \<open>The body of the loop of \<^verbatim>\<open>encodeCustomValues\<close> for the field at index \<open>i\<close>, and
  the loop over the indices.\<close>

definition encodeCustomField ::
  "('m, 't, 'f, 'i) env \<Rightarrow> 'm \<Rightarrow> nat \<Rightarrow> ('m, 't, 'f, 'i) encoder
   \<Rightarrow> error option \<times> ('m, 't, 'f, 'i) encoder" where
  "encodeCustomField env m i enc =
     (let customField = customFields enc ! i in
      case TryGetFieldByNumber env m (fieldNum customField) of
        Inl err \<Rightarrow> (Some (errGetFieldNumber (fieldNum customField)), enc)
      | Inr iVal \<Rightarrow>
         if isCustomFloatEncodedField (fieldType customField) then encodeTSZValue env i iVal enc
         else if isCustomIntEncodedField (fieldType customField) then encodeIntValue env i iVal enc
         else if fieldType customField = bytesField then encodeBytesValue env i iVal enc
         else if fieldType customField = boolField then encodeBoolValue i iVal enc
         else (Some (errNoLogicForField (fieldNum customField)), enc))"

fun encodeCustomValuesLoop ::
  "('m, 't, 'f, 'i) env \<Rightarrow> 'm \<Rightarrow> nat list \<Rightarrow> ('m, 't, 'f, 'i) encoder
   \<Rightarrow> error option \<times> ('m, 't, 'f, 'i) encoder" where
  "encodeCustomValuesLoop env m [] enc = (None, enc)"
| "encodeCustomValuesLoop env m (i # rest) enc =
     andThen (encodeCustomField env m i enc) (encodeCustomValuesLoop env m rest)"

definition encodeCustomValues ::
  "('m, 't, 'f, 'i) env \<Rightarrow> 'm \<Rightarrow> ('m, 't, 'f, 'i) encoder
   \<Rightarrow> error option \<times> ('m, 't, 'f, 'i) encoder" where
  "encodeCustomValues env m enc =
     encodeCustomValuesLoop env m [0..<length (customFields enc)] enc"

subsection \<open>The residual proto path\<close>

definition encodeBitset ::
  "int list \<Rightarrow> ('m, 't, 'f, 'i) encoder \<Rightarrow> error option \<times> ('m, 't, 'f, 'i) encoder" where
  "encodeBitset vals enc =
     (let mx = foldl (\<lambda>mx v. if v > mx then v else mx) 0 vals in
      andThen (encodeVarInt (word_of_int mx) enc)
        (\<lambda>enc1. (None, enc1\<lparr>stream :=
            foldl (\<lambda>os i. WriteBit (if list_ex (\<lambda>v. i = v - 1) vals
                                     then opCodeBitsetValueIsSet
                                     else opCodeBitsetValueIsNotSet) os)
              (stream enc1) [0..mx - 1]\<rparr>)))"

text \<open>
  The loop of \<^verbatim>\<open>encodeProtoValues\<close> over the residual fields. Its state is the
  message \<open>m\<close> (fields that did not change are cleared from it), \<^verbatim>\<open>lastEncoded\<close>, and
  the two lists \<^verbatim>\<open>changedFields\<close> and \<^verbatim>\<open>fieldsChangedToDefault\<close>.
\<close>

fun protoFieldsLoop ::
  "('m, 't, 'f, 'i) env \<Rightarrow> messageDescriptor \<Rightarrow> int list \<Rightarrow> 'm \<times> 'm \<times> int list \<times> int list
   \<Rightarrow> error option \<times> 'm \<times> 'm \<times> int list \<times> int list" where
  "protoFieldsLoop env sch [] st = (None, st)"
| "protoFieldsLoop env sch (fnum # rest) (m, prev, changedFields, toDefault) =
     (let prevVal = GetFieldByNumber env prev fnum;
          curVal = GetFieldByNumber env m fnum
      in if fieldsEqual env curVal prevVal then
           (case TryClearFieldByNumber env m fnum of
              (Some err, m') \<Rightarrow> (Some (errClearingField err fnum), (m', prev, changedFields, toDefault))
            | (None, m') \<Rightarrow> protoFieldsLoop env sch rest (m', prev, changedFields, toDefault))
         else
           (case isDefaultValue env sch fnum curVal of
              Inl err \<Rightarrow> (Some (errCheckingDefault err fnum), (m, prev, changedFields, toDefault))
            | Inr isDef \<Rightarrow>
               (case TrySetFieldByNumber env prev fnum curVal of
                  (Some err, prev') \<Rightarrow>
                    (Some (errSettingField err fnum),
                     (m, prev', changedFields @ [fnum],
                      if isDef then toDefault @ [fnum] else toDefault))
                | (None, prev') \<Rightarrow>
                    protoFieldsLoop env sch rest
                      (m, prev', changedFields @ [fnum],
                       if isDef then toDefault @ [fnum] else toDefault))))"

text \<open>The part of \<^verbatim>\<open>encodeProtoValues\<close> that writes a changed message: from the
  control bit \<^verbatim>\<open>opCodeChange\<close> to the marshaled bytes.\<close>

definition writeChangedProto ::
  "int list \<Rightarrow> byte list \<Rightarrow> ('m, 't, 'f, 'i) encoder \<Rightarrow> error option \<times> ('m, 't, 'f, 'i) encoder" where
  "writeChangedProto toDefault marshaled enc =
     (let enc1 = enc\<lparr>stream := WriteBit opCodeChange (stream enc)\<rparr> in
      andThen
        (if length toDefault > 0
         then encodeBitset toDefault
                (enc1\<lparr>stream := WriteBit opCodeFieldsSetToDefaultProtoMarshal (stream enc1)\<rparr>)
         else (None, enc1\<lparr>stream := WriteBit opCodeNoFieldsSetToDefaultProtoMarshal (stream enc1)\<rparr>))
        (\<lambda>enc2. andThen (encodeVarInt (word_of_nat (length marshaled)) enc2)
                  (\<lambda>enc3. (None, enc3\<lparr>stream := WriteBytes marshaled (stream enc3)\<rparr>))))"

text \<open>\<^verbatim>\<open>encodeProtoValues\<close>. The message \<open>m\<close> is \<^verbatim>\<open>enc.unmarshaled\<close> (the same
  pointer), so what the loop clears from it is stored in that field.\<close>

definition encodeProtoValues ::
  "('m, 't, 'f, 'i) env \<Rightarrow> 'm \<Rightarrow> ('m, 't, 'f, 'i) encoder
   \<Rightarrow> error option \<times> ('m, 't, 'f, 'i) encoder" where
  "encodeProtoValues env m enc =
     (if length (protoFields enc) = 0
      then (None, enc\<lparr>stream := WriteBit opCodeNoChange (stream enc)\<rparr>)
      else case schema enc of
             None \<Rightarrow> (Some panicNilPointer, enc)
           | Some sch \<Rightarrow>
              let prev0 = (case lastEncoded enc of None \<Rightarrow> NewMessage env sch | Some l \<Rightarrow> l);
                  (err, m', prev', changedFields, toDefault) =
                     protoFieldsLoop env sch (protoFields enc) (m, prev0, [], []);
                  enc1 = enc\<lparr>lastEncoded := Some prev', unmarshaled := Some m'\<rparr>
              in case err of
                   Some e \<Rightarrow> (Some e, enc1)
                 | None \<Rightarrow>
                    if length changedFields = 0
                    then (None, enc1\<lparr>stream := WriteBit opCodeNoChange (stream enc1)\<rparr>)
                    else case MarshalAppend env m' of
                           Inl e \<Rightarrow> (Some (errMarshal e), enc1)
                         | Inr marshaled \<Rightarrow>
                             writeChangedProto toDefault marshaled (enc1\<lparr>marshalBuf := marshaled\<rparr>))"

definition encodeProto ::
  "('m, 't, 'f, 'i) env \<Rightarrow> 'm \<Rightarrow> ('m, 't, 'f, 'i) encoder
   \<Rightarrow> error option \<times> ('m, 't, 'f, 'i) encoder" where
  "encodeProto env m enc = andThen (encodeCustomValues env m enc) (encodeProtoValues env m)"

subsection \<open>The custom-schema block\<close>

definition customTypeBitsFor ::
  "('m, 't, 'f, 'i) env \<Rightarrow> ('f, 'i) customFieldState list \<Rightarrow> int \<Rightarrow> 64 word" where
  "customTypeBitsFor env cfs i =
     (case find (\<lambda>customField. fieldNum customField = i) cfs of
        None \<Rightarrow> customTypeBits env notCustomEncodedField
      | Some customField \<Rightarrow> customTypeBits env (fieldType customField))"

definition encodeCustomSchemaTypes ::
  "('m, 't, 'f, 'i) env \<Rightarrow> ('m, 't, 'f, 'i) encoder \<Rightarrow> error option \<times> ('m, 't, 'f, 'i) encoder" where
  "encodeCustomSchemaTypes env enc =
     (if length (customFields enc) = 0 then encodeVarInt 0 enc
      else let maxFieldNum = fieldNum (customFields enc ! (length (customFields enc) - 1)) in
           andThen (encodeVarInt (word_of_int maxFieldNum) enc)
             (\<lambda>enc1. (None, enc1\<lparr>stream :=
                 foldl (\<lambda>os i. WriteBits (customTypeBitsFor env (customFields enc) i)
                                  (numBitsToEncodeCustomType env) os)
                   (stream enc1) [1..maxFieldNum]\<rparr>)))"


subsection \<open>Encode\<close>

text \<open>The control bits of a sample, with the time-unit block and the custom-schema
  block that follow them when the unit or the schema changed.\<close>

definition writeControl ::
  "('m, 't, 'f, 'i) env \<Rightarrow> xtimeUnit \<Rightarrow> ('m, 't, 'f, 'i) encoder
   \<Rightarrow> error option \<times> ('m, 't, 'f, 'i) encoder" where
  "writeControl env timeUnit enc =
     (let needToEncodeSchema = \<not> hasEncodedSchema enc;
          needToEncodeTimeUnit = (timeUnit \<noteq> TimeUnit env (timestampEncoder enc))
      in if needToEncodeSchema \<or> needToEncodeTimeUnit then
           let os1 = WriteBit opCodeNoMoreDataOrTimeUnitChangeAndOrSchemaChange (stream enc);
               os2 = WriteBit opCodeTimeUnitChangeAndOrSchemaChange os1;
               os3 = WriteBit (if needToEncodeTimeUnit then opCodeTimeUnitChange
                               else opCodeTimeUnitUnchanged) os2;
               os4 = WriteBit (if needToEncodeSchema then opCodeSchemaChange
                               else opCodeSchemaUnchanged) os3;
               enc1 = enc\<lparr>stream := os4\<rparr>;
               enc2 = (if needToEncodeTimeUnit
                       then let (ts, bits) = WriteTimeUnit env (timestampEncoder enc1) (stream enc1) timeUnit
                            in enc1\<lparr>stream := stream enc1 @ bits, timestampEncoder := ts\<rparr>
                       else enc1)
           in if needToEncodeSchema
              then andThen (encodeCustomSchemaTypes env enc2)
                     (\<lambda>enc3. (None, enc3\<lparr>hasEncodedSchema := True\<rparr>))
              else (None, enc2)
         else (None, enc\<lparr>stream := WriteBit opCodeMoreData (stream enc)\<rparr>))"

text \<open>
  The part of \<^verbatim>\<open>Encode\<close> below the comment "From this point onwards all errors are
  hard errors": the stream header before the first sample, the control bits, the
  timestamp, the fields, the counters. \<open>m\<close> is \<^verbatim>\<open>enc.unmarshaled\<close>. A panic of a
  callee passes through; an error that \<^verbatim>\<open>WriteTime\<close> or \<^verbatim>\<open>encodeProto\<close> returns is
  stored in \<^verbatim>\<open>hardErr\<close>.
\<close>

definition encodeUnmarshaled ::
  "('m, 't, 'f, 'i) env \<Rightarrow> datapoint \<Rightarrow> xtimeUnit \<Rightarrow> byte list \<Rightarrow> 'm \<Rightarrow> ('m, 't, 'f, 'i) encoder
   \<Rightarrow> error option \<times> ('m, 't, 'f, 'i) encoder" where
  "encodeUnmarshaled env dp timeUnit protoBytes m enc =
     andThen (if numEncoded enc = 0 then encodeStreamHeader env enc else (None, enc))
       (\<lambda>enc1. andThen (writeControl env timeUnit enc1)
          (\<lambda>enc2.
             case WriteTime env (timestampEncoder enc2) (stream enc2) (Timestamp dp) timeUnit of
               (werr, ts, bits) \<Rightarrow>
                 let enc3 = enc2\<lparr>stream := stream enc2 @ bits, timestampEncoder := ts\<rparr> in
                 (case werr of
                    Some err \<Rightarrow> (Some (errEncodingTimestamp err), enc3\<lparr>hardErr := Some err\<rparr>)
                  | None \<Rightarrow>
                     (case encodeProto env m enc3 of
                        (Some err, enc4) \<Rightarrow>
                          if isPanic err then (Some err, enc4)
                          else (Some (errEncodingProto err), enc4\<lparr>hardErr := Some err\<rparr>)
                      | (None, enc4) \<Rightarrow>
                          (None, enc4\<lparr>numEncoded := numEncoded enc4 + 1,
                                       lastEncodedDP := dp,
                                       stats := IncUncompressedBytes (int (length protoBytes))
                                                  (stats enc4)\<rparr>)))))"

definition Encode ::
  "('m, 't, 'f, 'i) env \<Rightarrow> datapoint \<Rightarrow> xtimeUnit \<Rightarrow> byte list \<Rightarrow> ('m, 't, 'f, 'i) encoder
   \<Rightarrow> error option \<times> ('m, 't, 'f, 'i) encoder" where
  "Encode env dp0 timeUnit protoBytes enc =
     (case isUsable enc of
        Some unusableErr \<Rightarrow> (Some unusableErr, enc)
      | None \<Rightarrow>
         (case schema enc of
            None \<Rightarrow> (Some errEncoderSchemaIsRequired, enc)
          | Some sch \<Rightarrow>
             let dp = dp0\<lparr>Value := 0\<rparr>;
                 m0 = (case unmarshaled enc of None \<Rightarrow> NewMessage env sch | Some u \<Rightarrow> u);
                 (uerr, m) = Unmarshal env m0 protoBytes;
                 enc1 = enc\<lparr>unmarshaled := Some m\<rparr>
             in case uerr of
                  Some err \<Rightarrow> (Some (errUnmarshalingAnnotation err), enc1)
                | None \<Rightarrow>
                   if length (GetUnknownFields env m) > 0
                   then (Some errEncoderMessageHasUnknownFields, enc1)
                   else encodeUnmarshaled env dp timeUnit protoBytes m enc1))"

subsection \<open>Queries\<close>

definition zeroTime :: time where
  "zeroTime = 0"

definition zeroDatapoint :: datapoint where
  "zeroDatapoint = \<lparr>Timestamp = zeroTime, Value = 0\<rparr>"

definition NumEncoded :: "('m, 't, 'f, 'i) encoder \<Rightarrow> int" where
  "NumEncoded enc = numEncoded enc"

definition LastEncoded ::
  "('m, 't, 'f, 'i) encoder \<Rightarrow> (datapoint \<times> error option) \<times> ('m, 't, 'f, 'i) encoder" where
  "LastEncoded enc =
     (case isUsable enc of
        Some unusableErr \<Rightarrow> ((zeroDatapoint, Some unusableErr), enc)
      | None \<Rightarrow>
         if numEncoded enc = 0 then ((zeroDatapoint, Some errNoEncodedDatapoints), enc)
         else let enc1 = enc\<lparr>lastEncodedDP := (lastEncodedDP enc)\<lparr>Value := 0\<rparr>\<rparr>
              in ((lastEncodedDP enc1, None), enc1))"



definition Bytes :: "('m, 't, 'f, 'i) encoder \<Rightarrow> byte list \<times> error option" where
  "Bytes enc =
     (case isUsable enc of
        Some unusableErr \<Rightarrow> ([], Some unusableErr)
      | None \<Rightarrow> (fst (Rawbytes (stream enc)), None))"

text \<open>\<^verbatim>\<open>segment\<close>: a segment is the list of its bytes. Without \<^verbatim>\<open>copy\<close> the buffer
  is taken from the stream (\<^verbatim>\<open>stream.Discard()\<close>), which is left empty.\<close>

definition segment ::
  "bool \<Rightarrow> ('m, 't, 'f, 'i) encoder \<Rightarrow> byte list \<times> ('m, 't, 'f, 'i) encoder" where
  "segment copy enc =
     (if streamLen (stream enc) = 0 then ([], enc)
      else let buffer = fst (Rawbytes (stream enc)) in
           if \<not> copy then (buffer, enc\<lparr>stream := []\<rparr>) else (buffer, enc))"

definition Stream :: "('m, 't, 'f, 'i) encoder \<Rightarrow> byte list option" where
  "Stream enc =
     (let seg = fst (segment True enc) in if length seg = 0 then None else Some seg)"

subsection \<open>Lifecycle\<close>

text \<open>
  \<^verbatim>\<open>customAndProtoFields\<close> is given the old slices only to reuse their memory; a
  non-nil schema descriptor yields a message descriptor; the capacity of \<^verbatim>\<open>reset\<close>
  sizes the new buffer, which is empty.
\<close>

definition resetSchema ::
  "('m, 't, 'f, 'i) env \<Rightarrow> messageDescriptor option \<Rightarrow> ('m, 't, 'f, 'i) encoder
   \<Rightarrow> ('m, 't, 'f, 'i) encoder" where
  "resetSchema env sch enc =
     (case sch of
        None \<Rightarrow>
          enc\<lparr>schema := None, protoFields := [], customFields := [],
              lastEncoded := None, unmarshaled := None, hasEncodedSchema := False\<rparr>
      | Some s \<Rightarrow>
          enc\<lparr>schema := Some s,
              customFields := fst (customAndProtoFields env s),
              protoFields := snd (customAndProtoFields env s),
              lastEncoded := Some (NewMessage env s),
              unmarshaled := Some (NewMessage env s),
              hasEncodedSchema := False\<rparr>)"

definition SetSchema ::
  "('m, 't, 'f, 'i) env \<Rightarrow> schemaDescr option \<Rightarrow> ('m, 't, 'f, 'i) encoder
   \<Rightarrow> ('m, 't, 'f, 'i) encoder" where
  "SetSchema env descr enc =
     (case descr of
        None \<Rightarrow> resetSchema env None (enc\<lparr>schemaDesc := None\<rparr>)
      | Some d \<Rightarrow>
          if (case schemaDesc enc of
                None \<Rightarrow> False
              | Some cur \<Rightarrow> length (DeployId d) \<noteq> 0 \<and> DeployId cur = DeployId d)
          then enc
          else resetSchema env (Some (MessageDescriptor d)) (enc\<lparr>schemaDesc := Some d\<rparr>))"

definition reset ::
  "('m, 't, 'f, 'i) env \<Rightarrow> time \<Rightarrow> int \<Rightarrow> ('m, 't, 'f, 'i) encoder \<Rightarrow> ('m, 't, 'f, 'i) encoder" where
  "reset env start capacity enc =
     (let enc1 = enc\<lparr>stream := [],
                     timestampEncoder := NewTimestampEncoder env start (DefaultTimeUnit env),
                     lastEncoded := None,
                     lastEncodedDP := zeroDatapoint,
                     unmarshaled := None,
                     marshalBuf := []\<rparr>;
          enc2 = (case schema enc1 of
                    None \<Rightarrow> enc1
                  | Some s \<Rightarrow> enc1\<lparr>customFields := fst (customAndProtoFields env s),
                                   protoFields := snd (customAndProtoFields env s)\<rparr>)
      in enc2\<lparr>closed := False, numEncoded := 0\<rparr>)"

definition Reset ::
  "('m, 't, 'f, 'i) env \<Rightarrow> time \<Rightarrow> int \<Rightarrow> schemaDescr option \<Rightarrow> ('m, 't, 'f, 'i) encoder
   \<Rightarrow> ('m, 't, 'f, 'i) encoder" where
  "Reset env start capacity descr enc = reset env start capacity (SetSchema env descr enc)"

text \<open>\<^verbatim>\<open>Close\<close> returns the encoder and the encoders it has put into the encoder pool
  (none, or the encoder itself).\<close>

definition Close ::
  "('m, 't, 'f, 'i) env \<Rightarrow> ('m, 't, 'f, 'i) encoder
   \<Rightarrow> ('m, 't, 'f, 'i) encoder \<times> ('m, 't, 'f, 'i) encoder list" where
  "Close env enc =
     (if closed enc then (enc, [])
      else let enc1 = Reset env zeroTime 0 None enc;
               enc2 = enc1\<lparr>stream := []\<rparr>;
               enc3 = enc2\<lparr>closed := True\<rparr>
           in (enc3, if hasEncoderPool env then [enc3] else []))"

definition discard ::
  "('m, 't, 'f, 'i) encoder \<Rightarrow> byte list \<times> ('m, 't, 'f, 'i) encoder" where
  "discard enc = segment False enc"

definition Discard ::
  "('m, 't, 'f, 'i) env \<Rightarrow> ('m, 't, 'f, 'i) encoder
   \<Rightarrow> byte list \<times> ('m, 't, 'f, 'i) encoder \<times> ('m, 't, 'f, 'i) encoder list" where
  "Discard env enc = (let (seg, enc1) = discard enc in (seg, Close env enc1))"

definition DiscardReset ::
  "('m, 't, 'f, 'i) env \<Rightarrow> time \<Rightarrow> int \<Rightarrow> schemaDescr option \<Rightarrow> ('m, 't, 'f, 'i) encoder
   \<Rightarrow> byte list \<times> ('m, 't, 'f, 'i) encoder" where
  "DiscardReset env start capacity descr enc =
     (let (seg, enc1) = discard enc in (seg, Reset env start capacity descr enc1))"

definition NewEncoder :: "('m, 't, 'f, 'i) env \<Rightarrow> time \<Rightarrow> ('m, 't, 'f, 'i) encoder" where
  "NewEncoder env start =
     \<lparr>stream = [], schemaDesc = None, schema = None, numEncoded = 0,
      lastEncodedDP = zeroDatapoint, lastEncoded = None, customFields = [], protoFields = [],
      marshalBuf = [], unmarshaled = None, hardErr = None, hasEncodedSchema = False,
      closed = False, stats = \<lparr>uncompressedBytes = 0\<rparr>,
      timestampEncoder = NewTimestampEncoder env start (DefaultTimeUnit env)\<rparr>"

subsection \<open>Sequences of calls\<close>

text \<open>
  The calls a client can make on an encoder, and the run of a list of calls. A call that
  panics ends the run (\<open>None\<close>); the queries \<^verbatim>\<open>NumEncoded\<close>, \<^verbatim>\<open>Len\<close>, \<^verbatim>\<open>Stats\<close>,
  \<^verbatim>\<open>Bytes\<close> and \<^verbatim>\<open>Stream\<close> leave the encoder as it is and are not listed.
\<close>

datatype call =
    CallEncode datapoint xtimeUnit "byte list"
  | CallLastEncoded
  | CallSetSchema "schemaDescr option"
  | CallReset time int "schemaDescr option"
  | CallClose
  | CallDiscard
  | CallDiscardReset time int "schemaDescr option"

fun applyCall ::
  "('m, 't, 'f, 'i) env \<Rightarrow> call \<Rightarrow> ('m, 't, 'f, 'i) encoder
   \<Rightarrow> error option \<times> ('m, 't, 'f, 'i) encoder" where
  "applyCall env (CallEncode dp timeUnit protoBytes) enc = Encode env dp timeUnit protoBytes enc"
| "applyCall env CallLastEncoded enc = (snd (fst (LastEncoded enc)), snd (LastEncoded enc))"
| "applyCall env (CallSetSchema descr) enc = (None, SetSchema env descr enc)"
| "applyCall env (CallReset start capacity descr) enc = (None, Reset env start capacity descr enc)"
| "applyCall env CallClose enc = (None, fst (Close env enc))"
| "applyCall env CallDiscard enc = (None, fst (snd (Discard env enc)))"
| "applyCall env (CallDiscardReset start capacity descr) enc =
     (None, snd (DiscardReset env start capacity descr enc))"

fun run ::
  "('m, 't, 'f, 'i) env \<Rightarrow> call list \<Rightarrow> ('m, 't, 'f, 'i) encoder
   \<Rightarrow> ('m, 't, 'f, 'i) encoder option" where
  "run env [] enc = Some enc"
| "run env (c # cs) enc =
     (case applyCall env c enc of
        (r, enc1) \<Rightarrow> if panicked r then None else run env cs enc1)"



subsection \<open>The procedures as the specification words them\<close>

text \<open>
  The bytes of the stream that an entry of a dictionary refers to, and the invariant of
  the dictionaries (invariant 5 of the specification): every entry lies within the whole
  bytes that the stream holds.
\<close>

definition referencedBytes :: "ostream \<Rightarrow> encoderBytesFieldDictState \<Rightarrow> byte list" where
  "referencedBytes os st = take (lengthD st) (drop (startPos st) (fst (Rawbytes os)))"

definition dictInStream :: "ostream \<Rightarrow> encoderBytesFieldDictState list \<Rightarrow> bool" where
  "dictInStream os d = list_all (\<lambda>st. startPos st + lengthD st \<le> length os div 8) d"

text \<open>
  The decision procedure of the specification for a bytes field (section 4.D), as a
  function from the stream, the dictionary of the field and the current bytes to the new
  stream and the new dictionary: the tail entry, else the first entry that matches, else
  a new literal.
\<close>

definition bytesValueSpec ::
  "('m, 't, 'f, 'i) env \<Rightarrow> ostream \<Rightarrow> encoderBytesFieldDictState list \<Rightarrow> byte list
   \<Rightarrow> ostream \<times> encoderBytesFieldDictState list" where
  "bytesValueSpec env os d cur =
     (let h = Sum64 env cur;
          same = (\<lambda>st. hash st = h \<and> referencedBytes os st = cur)
      in if d \<noteq> [] \<and> same (last d) then (os @ [False], d)
         else case List.extract same d of
                Some (before, entry, after) \<Rightarrow>
                  (os @ [True, False]
                      @ bitsOfWord (word_of_nat (length before) :: 64 word)
                          (ceilLog2 (nat (ByteFieldDictionaryLRUSize env))),
                   before @ after @ [entry])
              | None \<Rightarrow>
                  let lit = os @ [True, True] @ bytesToBits (putUvarint (word_of_nat (length cur)));
                      padded = lit @ replicate ((8 - length lit mod 8) mod 8) False
                  in (padded @ bytesToBits cur,
                      (if int (length d) < ByteFieldDictionaryLRUSize env then d else tl d)
                        @ [\<lparr>hash = h, startPos = length padded div 8, lengthD = length cur\<rparr>]))"

text \<open>
  The changed branch of the residual path as the specification words it (sections 4.F
  and 6.1): the stream is padded to a byte boundary before the varint of the length and
  the marshaled bytes.
\<close>

definition writeChangedProtoSpec ::
  "int list \<Rightarrow> byte list \<Rightarrow> ('m, 't, 'f, 'i) encoder \<Rightarrow> error option \<times> ('m, 't, 'f, 'i) encoder" where
  "writeChangedProtoSpec toDefault marshaled enc =
     (let enc1 = enc\<lparr>stream := WriteBit opCodeChange (stream enc)\<rparr> in
      andThen
        (if length toDefault > 0
         then encodeBitset toDefault
                (enc1\<lparr>stream := WriteBit opCodeFieldsSetToDefaultProtoMarshal (stream enc1)\<rparr>)
         else (None, enc1\<lparr>stream := WriteBit opCodeNoFieldsSetToDefaultProtoMarshal (stream enc1)\<rparr>))
        (\<lambda>enc2. andThen (encodeVarInt (word_of_nat (length marshaled)) (padToNextByte enc2))
                  (\<lambda>enc3. (None, enc3\<lparr>stream := WriteBytes marshaled (stream enc3)\<rparr>))))"

text \<open>The bits of the bitset of \<^verbatim>\<open>encodeBitset\<close>, after its varint.\<close>

definition bitsetBits :: "int list \<Rightarrow> bool list" where
  "bitsetBits vals =
     map (\<lambda>i. list_ex (\<lambda>v. i = v - 1) vals) [0..foldl (\<lambda>mx v. if v > mx then v else mx) 0 vals - 1]"

text \<open>
  The control prefix of a sample (section 4.G, step 6, and section 6.1) and the stream
  header (section 6.1), as the specification words them.
\<close>

definition controlPrefixSpec :: "bool \<Rightarrow> bool \<Rightarrow> bool list" where
  "controlPrefixSpec timeUnitChange schemaChange =
     (if schemaChange \<or> timeUnitChange then [True, True, timeUnitChange, schemaChange]
      else [False])"

definition streamHeaderSpec :: "('m, 't, 'f, 'i) env \<Rightarrow> bool list" where
  "streamHeaderSpec env =
     bytesToBits (putUvarint 1)
       @ bytesToBits (putUvarint (word_of_int (ByteFieldDictionaryLRUSize env)))"

subsection \<open>What the steps of a sample leave unchanged\<close>

text \<open>
  \<open>frame enc enc'\<close>: the stream of \<open>enc'\<close> extends that of \<open>enc\<close>, and the fields
  that only \<^verbatim>\<open>Encode\<close> itself and the lifecycle functions assign are the same.
\<close>

definition frame :: "('m, 't, 'f, 'i) encoder \<Rightarrow> ('m, 't, 'f, 'i) encoder \<Rightarrow> bool" where
  "frame enc enc' =
     (prefix (stream enc) (stream enc') \<and> hardErr enc' = hardErr enc
      \<and> numEncoded enc' = numEncoded enc \<and> closed enc' = closed enc
      \<and> stats enc' = stats enc \<and> schema enc' = schema enc
      \<and> schemaDesc enc' = schemaDesc enc \<and> lastEncodedDP enc' = lastEncodedDP enc
      \<and> protoFields enc' = protoFields enc
      \<and> length (customFields enc') = length (customFields enc))"

subsection \<open>An instance of the collaborators\<close>

text \<open>
  A small protobuf library and small sub-coders, to run the encoder on concrete calls. A
  message is the list of its wire bytes; the annotation \<open>[255]\<close> does not unmarshal, a
  message that starts with \<open>254\<close> has unknown fields; every field of a message holds the
  bytes of the message. The timestamp coder writes one bit and fails on a negative
  timestamp; its state is the time unit. The float and integer coders write one bit.
\<close>

definition exampleEnv :: "(byte list, xtimeUnit, unit, unit) env" where
  "exampleEnv =
     \<lparr>ByteFieldDictionaryLRUSize = 4,
      hasEncoderPool = True,
      hasSegmentReaderPool = False,
      DefaultTimeUnit = 1,
      Sum64 = (\<lambda>bs. word_of_nat (length bs)),
      NewMessage = (\<lambda>sch. []),
      Unmarshal = (\<lambda>m bs. (if bs = [255] then Some (errExternal 1) else None, bs)),
      GetUnknownFields = (\<lambda>m. if take 1 m = [254] then [254] else []),
      TryGetFieldByNumber = (\<lambda>m n. Inr (VBytes m)),
      GetFieldByNumber = (\<lambda>m n. VBytes m),
      TryClearFieldByNumber = (\<lambda>m n. (None, [])),
      TrySetFieldByNumber = (\<lambda>m n v. (None, case v of VBytes b \<Rightarrow> b | _ \<Rightarrow> m)),
      MarshalAppend = (\<lambda>m. Inr m),
      fieldsEqual = (\<lambda>a b. a = b),
      isDefaultValue = (\<lambda>sch n v. Inr (v = VBytes [])),
      NewTimestampEncoder = (\<lambda>start u. u),
      TimeUnit = (\<lambda>t. t),
      WriteTimeUnit = (\<lambda>t os u. (u, [True])),
      WriteTime = (\<lambda>t os ts u. (if ts < 0 then Some (errExternal 2) else None, t, [False])),
      newFloatEncAndIter = (),
      WriteFloat = (\<lambda>st os v. ((), [False])),
      newIntEncAndIter = (),
      encodeUnsignedIntValue = (\<lambda>st os v. ((), [False])),
      encodeSignedIntValue = (\<lambda>st os v. ((), [False])),
      customTypeBits = (\<lambda>t. case t of notCustomEncodedField \<Rightarrow> 0 | bytesField \<Rightarrow> 6
                                   | boolField \<Rightarrow> 7 | _ \<Rightarrow> 1),
      numBitsToEncodeCustomType = 3,
      float32to64 = ucast\<rparr>"

text \<open>The same collaborators with a dictionary of size 0.\<close>

definition exampleEnv0 :: "(byte list, xtimeUnit, unit, unit) env" where
  "exampleEnv0 = exampleEnv\<lparr>ByteFieldDictionaryLRUSize := 0\<rparr>"

text \<open>Two schemas: one bytes field (number 1), and one residual field (number 1).\<close>

definition bytesSchema :: schemaDescr where
  "bytesSchema =
     \<lparr>DeployId = ''a'', MessageDescriptor = [\<lparr>fdNumber = 1, fdCustomType = bytesField\<rparr>]\<rparr>"

definition nestedSchema :: schemaDescr where
  "nestedSchema =
     \<lparr>DeployId = ''b'', MessageDescriptor = [\<lparr>fdNumber = 1, fdCustomType = notCustomEncodedField\<rparr>]\<rparr>"

definition exampleEncoder :: "schemaDescr \<Rightarrow> (byte list, xtimeUnit, unit, unit) encoder" where
  "exampleEncoder descr = SetSchema exampleEnv (Some descr) (NewEncoder exampleEnv 0)"


text \<open>The example encoder after a first sample, with the annotation \<open>[1, 2]\<close>; the
  same after a further write of the bytes \<open>[7]\<close> to its bytes field; and an encoder
  with a bytes field and a dictionary of size 0.\<close>

definition sampleEncoder :: "schemaDescr \<Rightarrow> (byte list, xtimeUnit, unit, unit) encoder" where
  "sampleEncoder descr =
     snd (Encode exampleEnv \<lparr>Timestamp = 5, Value = 0\<rparr> 1 [1, 2] (exampleEncoder descr))"

definition sampleEncoder2 :: "(byte list, xtimeUnit, unit, unit) encoder" where
  "sampleEncoder2 = snd (encodeBytesValue exampleEnv 0 (VString [7]) (sampleEncoder bytesSchema))"

definition exampleEncoder0 :: "(byte list, xtimeUnit, unit, unit) encoder" where
  "exampleEncoder0 = SetSchema exampleEnv0 (Some bytesSchema) (NewEncoder exampleEnv0 0)"

section \<open>Lemmas\<close>

subsection \<open>Sequencing and the frame of the steps\<close>

lemma andThen_None [simp]: "andThen (None, s) f = f s"
  by (simp add: andThen_def)

lemma andThen_Some [simp]: "andThen (Some e, s) f = (Some e, s)"
  by (simp add: andThen_def)

lemma andThen_eq_None:
  "andThen r f = (None, s') \<longleftrightarrow> (\<exists>s. r = (None, s) \<and> f s = (None, s'))"
  by (cases r) (auto simp: andThen_def split: option.splits)

lemma frame_refl [simp]: "frame enc enc"
  by (simp add: frame_def)

lemma frame_trans: "frame a b \<Longrightarrow> frame b c \<Longrightarrow> frame a c"
  by (auto simp: frame_def)

lemma frame_stream [simp]: "frame enc (enc\<lparr>stream := stream enc @ bits\<rparr>)"
  by (simp add: frame_def)

lemma frame_andThen:
  assumes "frame enc (snd r)" and "\<And>e. frame e (snd (f e))"
  shows "frame enc (snd (andThen r f))"
proof (cases r)
  case (Pair a b)
  show ?thesis
  proof (cases a)
    case None
    with Pair assms(1) assms(2) [of b] show ?thesis by (auto intro: frame_trans)
  next
    case (Some e)
    with Pair assms(1) show ?thesis by simp
  qed
qed

lemma encodeVarInt_frame: "frame enc (snd (encodeVarInt x enc))"
  by (simp add: encodeVarInt_def WriteBytes_def)

lemma encodeStreamHeader_frame: "frame enc (snd (encodeStreamHeader env enc))"
  unfolding encodeStreamHeader_def
  by (rule frame_andThen) (rule encodeVarInt_frame)+

lemma foldl_WriteBits:
  "foldl (\<lambda>os i. WriteBits (g i) n os) os xs = os @ concat (map (\<lambda>i. bitsOfWord (g i) n) xs)"
  by (induction xs arbitrary: os) (auto simp: WriteBits_def)

lemma foldl_WriteBit: "foldl (\<lambda>os i. WriteBit (g i) os) os xs = os @ map g xs"
  by (induction xs arbitrary: os) (auto simp: WriteBit_def)

lemma frame_stream_foldl:
  "frame enc (enc\<lparr>stream := foldl (\<lambda>os i. WriteBits (g i) n os) (stream enc) xs\<rparr>)"
  by (simp add: foldl_WriteBits)

lemma encodeCustomSchemaTypes_frame: "frame enc (snd (encodeCustomSchemaTypes env enc))"
  unfolding encodeCustomSchemaTypes_def Let_def
  by (auto intro!: frame_andThen encodeVarInt_frame frame_stream_foldl)

lemma encodeBitset_frame: "frame enc (snd (encodeBitset vals enc))"
  unfolding encodeBitset_def Let_def
  by (auto intro!: frame_andThen encodeVarInt_frame simp: foldl_WriteBit)

lemma padLoop_eq: "padLoop p os = os @ replicate ((8 - p mod 8) mod 8) False"
proof (induction p os rule: padLoop.induct)
  case (1 bitPos os)
  show ?case
  proof (cases "bitPos mod 8 = 0")
    case True
    then show ?thesis by (simp add: padLoop.simps)
  next
    case False
    have lt: "bitPos mod 8 < 8" by simp
    have s: "(bitPos + 1) mod 8 = (if Suc (bitPos mod 8) = 8 then 0 else Suc (bitPos mod 8))"
      by (simp add: mod_Suc)
    from False lt s have "(8 - bitPos mod 8) mod 8 = Suc ((8 - (bitPos + 1) mod 8) mod 8)"
      by (auto split: if_splits)
    with False "1.IH" show ?thesis
      by (subst padLoop.simps) (simp add: WriteBit_def replicate_app_Cons_same)
  qed
qed

lemma padToNextByte_eq:
  "padToNextByte enc = enc\<lparr>stream := stream enc @ replicate ((8 - length (stream enc) mod 8) mod 8) False\<rparr>"
  by (simp add: padToNextByte_def padLoop_eq Rawbytes_def)

lemma padToNextByte_frame: "frame enc (padToNextByte enc)"
  by (simp add: padToNextByte_eq)

lemma setBytesFieldDict_frame: "frame enc (setBytesFieldDict i d enc)"
  by (simp add: setBytesFieldDict_def frame_def)

lemma addToBytesDict_frame: "frame enc (snd (addToBytesDict env i st enc))"
  by (simp add: addToBytesDict_def Let_def setBytesFieldDict_frame)

lemma moveToEndOfBytesDict_frame: "frame enc (moveToEndOfBytesDict i j enc)"
  by (simp add: moveToEndOfBytesDict_def setBytesFieldDict_frame)

lemma frame_then: "frame a b \<Longrightarrow> frame b c \<Longrightarrow> frame a c"
  by (rule frame_trans)

lemma encodeBytesLiteral_frame: "frame enc (snd (encodeBytesLiteral env i h cur enc))"
proof -
  have a: "frame enc (enc\<lparr>stream := WriteBit opCodeInterpretSubsequentBitsAsBytesLengthVarInt (stream enc)\<rparr>)"
    by (simp add: WriteBit_def)
  have b: "\<And>e. frame e (snd (addToBytesDict env i \<lparr>hash = h, startPos = length (fst (Rawbytes (stream (padToNextByte e)))), lengthD = length cur\<rparr>
             (padToNextByte e\<lparr>stream := WriteBytes cur (stream (padToNextByte e))\<rparr>)))"
    by (rule frame_trans [OF padToNextByte_frame], rule frame_trans [OF _ addToBytesDict_frame])
       (simp add: WriteBytes_def)
  show ?thesis
    unfolding encodeBytesLiteral_def Let_def
    by (rule frame_trans [OF a], rule frame_andThen, rule encodeVarInt_frame, rule b)
qed

lemma encodeBytesChanged_frame: "frame enc (snd (encodeBytesChanged env i h cur d enc))"
proof -
  let ?e1 = "enc\<lparr>stream := WriteBit opCodeChange (stream enc)\<rparr>"
  have a: "frame enc ?e1"
    by (simp add: WriteBit_def)
  have b: "frame enc (enc\<lparr>stream := WriteBits w n (WriteBit b (WriteBit opCodeChange (stream enc)))\<rparr>)"
    for w n b
    by (simp add: WriteBit_def WriteBits_def frame_def)
  show ?thesis
  proof (cases "scanBytesDict h (fst (Rawbytes (stream ?e1))) cur d 0")
    case (Inl err)
    then show ?thesis by (simp add: encodeBytesChanged_def Let_def a)
  next
    case (Inr found)
    show ?thesis
    proof (cases found)
      case None
      with Inr show ?thesis
        by (simp add: encodeBytesChanged_def Let_def frame_trans [OF a encodeBytesLiteral_frame])
    next
      case (Some j)
      with Inr show ?thesis
        by (simp add: encodeBytesChanged_def Let_def
            frame_trans [OF b moveToEndOfBytesDict_frame])
    qed
  qed
qed

lemma encodeBytesValue_frame: "frame enc (snd (encodeBytesValue env i v enc))"
  unfolding encodeBytesValue_def Let_def
  by (auto split: sum.splits option.splits simp: WriteBit_def encodeBytesChanged_frame)

lemma encodeTSZValue_frame: "frame enc (snd (encodeTSZValue env i v enc))"
  unfolding encodeTSZValue_def Let_def
  by (auto split: option.splits prod.splits simp: frame_def)

lemma encodeIntValue_frame: "frame enc (snd (encodeIntValue env i v enc))"
  unfolding encodeIntValue_def Let_def
  by (auto split: option.splits prod.splits simp: frame_def)

lemma encodeBoolValue_frame: "frame enc (snd (encodeBoolValue i v enc))"
  unfolding encodeBoolValue_def
  by (auto split: goValue.splits simp: WriteBit_def)

lemma encodeCustomField_frame: "frame enc (snd (encodeCustomField env m i enc))"
  unfolding encodeCustomField_def Let_def
  by (auto split: sum.splits
      simp: encodeTSZValue_frame encodeIntValue_frame encodeBytesValue_frame encodeBoolValue_frame)

lemma encodeCustomValuesLoop_frame: "frame enc (snd (encodeCustomValuesLoop env m is enc))"
proof (induction "is" arbitrary: enc)
  case Nil
  show ?case by simp
next
  case (Cons i rest)
  show ?case
    by (simp only: encodeCustomValuesLoop.simps)
       (rule frame_andThen, rule encodeCustomField_frame, rule Cons.IH)
qed

lemma encodeCustomValues_frame: "frame enc (snd (encodeCustomValues env m enc))"
  by (simp add: encodeCustomValues_def encodeCustomValuesLoop_frame)

lemma writeChangedProto_frame: "frame enc (snd (writeChangedProto td ms enc))"
proof -
  have c: "\<And>e. frame e (snd (andThen (encodeVarInt (word_of_nat (length ms)) e)
             (\<lambda>enc3. (None, enc3\<lparr>stream := WriteBytes ms (stream enc3)\<rparr>))))"
    by (rule frame_andThen, rule encodeVarInt_frame) (simp add: WriteBytes_def)
  have d: "frame enc (enc\<lparr>stream := WriteBit b (WriteBit opCodeChange (stream enc))\<rparr>)" for b
    by (simp add: WriteBit_def frame_def)
  show ?thesis
  proof (cases "td = []")
    case True
    then show ?thesis
      unfolding writeChangedProto_def Let_def
      by (simp add: frame_trans [OF d c])
  next
    case False
    have "frame enc (snd (andThen (encodeBitset td
             (enc\<lparr>stream := WriteBit opCodeFieldsSetToDefaultProtoMarshal
                               (WriteBit opCodeChange (stream enc))\<rparr>))
           (\<lambda>enc2. andThen (encodeVarInt (word_of_nat (length ms)) enc2)
                  (\<lambda>enc3. (None, enc3\<lparr>stream := WriteBytes ms (stream enc3)\<rparr>)))))"
      by (rule frame_andThen, rule frame_trans [OF d encodeBitset_frame], rule c)
    with False show ?thesis
      unfolding writeChangedProto_def Let_def by simp
  qed
qed

lemma encodeProtoValues_unfold:
  assumes "protoFields enc \<noteq> []" and "schema enc = Some sch"
    and "protoFieldsLoop env sch (protoFields enc)
           (m, (case lastEncoded enc of None \<Rightarrow> NewMessage env sch | Some l \<Rightarrow> l), [], [])
         = (err, m', prev', ch, td)"
  shows "encodeProtoValues env m enc =
     (case err of
        Some e \<Rightarrow> (Some e, enc\<lparr>lastEncoded := Some prev', unmarshaled := Some m'\<rparr>)
      | None \<Rightarrow>
         if ch = []
         then (None, enc\<lparr>lastEncoded := Some prev', unmarshaled := Some m',
                          stream := WriteBit opCodeNoChange (stream enc)\<rparr>)
         else case MarshalAppend env m' of
                Inl e \<Rightarrow> (Some (errMarshal e), enc\<lparr>lastEncoded := Some prev', unmarshaled := Some m'\<rparr>)
              | Inr marshaled \<Rightarrow>
                  writeChangedProto td marshaled
                    (enc\<lparr>lastEncoded := Some prev', unmarshaled := Some m', marshalBuf := marshaled\<rparr>))"
  using assms by (simp add: encodeProtoValues_def Let_def split: option.splits sum.splits)

lemma encodeProtoValues_frame: "frame enc (snd (encodeProtoValues env m enc))"
proof (cases "protoFields enc = []")
  case True
  then show ?thesis by (simp add: encodeProtoValues_def WriteBit_def)
next
  case False
  show ?thesis
  proof (cases "schema enc")
    case None
    with False show ?thesis by (simp add: encodeProtoValues_def)
  next
    case (Some sch)
    obtain err m' prev' ch td where loop:
      "protoFieldsLoop env sch (protoFields enc)
           (m, (case lastEncoded enc of None \<Rightarrow> NewMessage env sch | Some l \<Rightarrow> l), [], [])
         = (err, m', prev', ch, td)"
      by (metis prod_cases5)
    have a: "frame enc (enc\<lparr>lastEncoded := Some prev', unmarshaled := Some m'\<rparr>)"
      by (simp add: frame_def)
    have b: "frame enc (enc\<lparr>lastEncoded := Some prev', unmarshaled := Some m',
                          stream := WriteBit opCodeNoChange (stream enc)\<rparr>)"
      by (simp add: frame_def WriteBit_def)
    have c: "frame enc (enc\<lparr>lastEncoded := Some prev', unmarshaled := Some m', marshalBuf := mb\<rparr>)" for mb
      by (simp add: frame_def)
    show ?thesis
      unfolding encodeProtoValues_unfold [OF False Some loop]
      by (auto split: option.splits sum.splits intro: a b frame_trans [OF c writeChangedProto_frame])
  qed
qed

lemma encodeProto_frame: "frame enc (snd (encodeProto env m enc))"
  unfolding encodeProto_def
  by (rule frame_andThen) (rule encodeCustomValues_frame encodeProtoValues_frame)+


lemmas opCode_defs =
  opCodeMoreData_def opCodeNoMoreDataOrTimeUnitChangeAndOrSchemaChange_def
  opCodeTimeUnitChangeAndOrSchemaChange_def opCodeTimeUnitChange_def
  opCodeTimeUnitUnchanged_def opCodeSchemaChange_def opCodeSchemaUnchanged_def
  opCodeNoChange_def opCodeChange_def opCodeInterpretSubsequentBitsAsLRUIndex_def
  opCodeInterpretSubsequentBitsAsBytesLengthVarInt_def
  opCodeNoFieldsSetToDefaultProtoMarshal_def opCodeFieldsSetToDefaultProtoMarshal_def
  opCodeBitsetValueIsNotSet_def opCodeBitsetValueIsSet_def opCodeBoolTrue_def
  opCodeBoolFalse_def

lemma encodeVarInt_Some: "fst (encodeVarInt x enc) = Some p \<Longrightarrow> isPanic p"
  by (auto simp: encodeVarInt_def split: if_splits)

lemma encodeVarInt_None:
  "fst (encodeVarInt x enc) = None \<Longrightarrow>
     snd (encodeVarInt x enc) = enc\<lparr>stream := stream enc @ bytesToBits (putUvarint x)\<rparr>"
  by (auto simp: encodeVarInt_def WriteBytes_def split: if_splits)

lemma andThen_Some_panic:
  assumes "fst (andThen r f) = Some p"
    and "\<And>q. fst r = Some q \<Longrightarrow> isPanic q"
    and "\<And>e q. fst (f e) = Some q \<Longrightarrow> isPanic q"
  shows "isPanic p"
  using assms by (cases r) (auto simp: andThen_def split: option.splits)

lemma encodeStreamHeader_Some: "fst (encodeStreamHeader env enc) = Some p \<Longrightarrow> isPanic p"
  unfolding encodeStreamHeader_def
  by (erule andThen_Some_panic) (auto dest: encodeVarInt_Some)

lemma encodeStreamHeader_None:
  assumes "fst (encodeStreamHeader env enc) = None"
  shows "snd (encodeStreamHeader env enc) = enc\<lparr>stream := stream enc @ streamHeaderSpec env\<rparr>"
proof -
  from assms obtain e1 e2 where a: "encodeVarInt currentEncodingSchemeVersion enc = (None, e1)"
    and b: "encodeVarInt (word_of_int (ByteFieldDictionaryLRUSize env)) e1 = (None, e2)"
    and c: "encodeStreamHeader env enc = (None, e2)"
    unfolding encodeStreamHeader_def
    by (cases "encodeVarInt currentEncodingSchemeVersion enc";
        cases "encodeVarInt (word_of_int (ByteFieldDictionaryLRUSize env))
                 (snd (encodeVarInt currentEncodingSchemeVersion enc))")
       (auto simp: andThen_def split: option.splits)
  from a have "e1 = enc\<lparr>stream := stream enc @ bytesToBits (putUvarint 1)\<rparr>"
    using encodeVarInt_None [of currentEncodingSchemeVersion enc]
    by (simp add: currentEncodingSchemeVersion_def)
  moreover from b have "e2 = e1\<lparr>stream := stream e1
      @ bytesToBits (putUvarint (word_of_int (ByteFieldDictionaryLRUSize env)))\<rparr>"
    using encodeVarInt_None [of "word_of_int (ByteFieldDictionaryLRUSize env)" e1] by simp
  ultimately show ?thesis using c by (simp add: streamHeaderSpec_def)
qed

lemma encodeCustomSchemaTypes_Some:
  "fst (encodeCustomSchemaTypes env enc) = Some p \<Longrightarrow> isPanic p"
  unfolding encodeCustomSchemaTypes_def Let_def
  by (auto split: if_splits dest: encodeVarInt_Some elim!: andThen_Some_panic)

lemma writeControl_Some: "fst (writeControl env tu enc) = Some p \<Longrightarrow> isPanic p"
  unfolding writeControl_def Let_def
  by (auto split: if_splits prod.splits dest: encodeCustomSchemaTypes_Some elim!: andThen_Some_panic)

lemma writeControl_stream:
  "prefix (stream enc @ controlPrefixSpec (tu \<noteq> TimeUnit env (timestampEncoder enc))
                          (\<not> hasEncodedSchema enc))
     (stream (snd (writeControl env tu enc)))
   \<and> frame enc (snd (writeControl env tu enc))"
proof -
  let ?nt = "tu \<noteq> TimeUnit env (timestampEncoder enc)"
  let ?ns = "\<not> hasEncodedSchema enc"
  show ?thesis
  proof (cases "?ns \<or> ?nt")
    case False
    then show ?thesis
      by (simp add: writeControl_def controlPrefixSpec_def WriteBit_def opCode_defs frame_def)
  next
    case True
    let ?e1 = "enc\<lparr>stream := stream enc @ [True, True, ?nt, ?ns]\<rparr>"
    let ?w = "WriteTimeUnit env (timestampEncoder enc) (stream ?e1) tu"
    let ?e2 = "if ?nt then ?e1\<lparr>stream := stream ?e1 @ snd ?w, timestampEncoder := fst ?w\<rparr> else ?e1"
    have e2: "prefix (stream enc @ [True, True, ?nt, ?ns]) (stream ?e2) \<and> frame enc ?e2"
      by (simp add: frame_def)
    have eq: "writeControl env tu enc =
        (if ?ns then andThen (encodeCustomSchemaTypes env ?e2) (\<lambda>enc3. (None, enc3\<lparr>hasEncodedSchema := True\<rparr>))
         else (None, ?e2))"
      using True
      by (simp add: writeControl_def Let_def WriteBit_def opCode_defs case_prod_beta)
    have fr: "frame ?e2 (snd (andThen (encodeCustomSchemaTypes env ?e2)
                (\<lambda>enc3. (None, enc3\<lparr>hasEncodedSchema := True\<rparr>))))"
      by (rule frame_andThen, rule encodeCustomSchemaTypes_frame) (simp add: frame_def)
    have "prefix (stream enc @ [True, True, ?nt, ?ns]) (stream (snd (writeControl env tu enc)))
          \<and> frame enc (snd (writeControl env tu enc))"
    proof (cases ?ns)
      case False
      with eq e2 show ?thesis by simp
    next
      case True
      from fr have "prefix (stream ?e2) (stream (snd (andThen (encodeCustomSchemaTypes env ?e2)
                (\<lambda>enc3. (None, enc3\<lparr>hasEncodedSchema := True\<rparr>)))))"
        by (simp add: frame_def)
      with e2 have "prefix (stream enc @ [True, True, ?nt, ?ns])
             (stream (snd (andThen (encodeCustomSchemaTypes env ?e2)
                (\<lambda>enc3. (None, enc3\<lparr>hasEncodedSchema := True\<rparr>)))))"
        by (meson prefix_order.trans)
      moreover from e2 fr have "frame enc (snd (andThen (encodeCustomSchemaTypes env ?e2)
                (\<lambda>enc3. (None, enc3\<lparr>hasEncodedSchema := True\<rparr>))))"
        by (meson frame_trans)
      ultimately show ?thesis using eq True by simp
    qed
    with True show ?thesis by (simp add: controlPrefixSpec_def)
  qed
qed


lemma frame_prefix: "frame a b \<Longrightarrow> prefix pre (stream a) \<Longrightarrow> prefix pre (stream b)"
  by (auto simp: frame_def)

lemma encodeUnmarshaled_cases:
  fixes env :: "('m, 't, 'f, 'i) env" and enc :: "('m, 't, 'f, 'i) encoder" and tu :: xtimeUnit
  defines "pre \<equiv> stream enc @ (if numEncoded enc = 0 then streamHeaderSpec env else [])
                    @ controlPrefixSpec (tu \<noteq> TimeUnit env (timestampEncoder enc))
                        (\<not> hasEncodedSchema enc)"
  obtains
    (panic) p e where "encodeUnmarshaled env dp tu bs m enc = (Some p, e)" "isPanic p" "frame enc e"
  | (timeErr) err e where
      "encodeUnmarshaled env dp tu bs m enc = (Some (errEncodingTimestamp err), e\<lparr>hardErr := Some err\<rparr>)"
      "frame enc e" "prefix pre (stream e)"
  | (protoErr) err e where
      "encodeUnmarshaled env dp tu bs m enc = (Some (errEncodingProto err), e\<lparr>hardErr := Some err\<rparr>)"
      "frame enc e" "prefix pre (stream e)"
  | (ok) e where
      "encodeUnmarshaled env dp tu bs m enc =
         (None, e\<lparr>numEncoded := numEncoded e + 1, lastEncodedDP := dp,
                  stats := IncUncompressedBytes (int (length bs)) (stats e)\<rparr>)"
      "frame enc e" "prefix pre (stream e)"
proof -
  define H where "H = (if numEncoded enc = 0 then encodeStreamHeader env enc else (None, enc))"
  have eq0: "encodeUnmarshaled env dp tu bs m enc =
     andThen H (\<lambda>enc1. andThen (writeControl env tu enc1)
          (\<lambda>enc2.
             case WriteTime env (timestampEncoder enc2) (stream enc2) (Timestamp dp) tu of
               (werr, ts, bits) \<Rightarrow>
                 let enc3 = enc2\<lparr>stream := stream enc2 @ bits, timestampEncoder := ts\<rparr> in
                 (case werr of
                    Some err \<Rightarrow> (Some (errEncodingTimestamp err), enc3\<lparr>hardErr := Some err\<rparr>)
                  | None \<Rightarrow>
                     (case encodeProto env m enc3 of
                        (Some err, enc4) \<Rightarrow>
                          if isPanic err then (Some err, enc4)
                          else (Some (errEncodingProto err), enc4\<lparr>hardErr := Some err\<rparr>)
                      | (None, enc4) \<Rightarrow>
                          (None, enc4\<lparr>numEncoded := numEncoded enc4 + 1,
                                       lastEncodedDP := dp,
                                       stats := IncUncompressedBytes (int (length bs))
                                                  (stats enc4)\<rparr>)))))"
    by (simp add: encodeUnmarshaled_def H_def)
  have frH: "frame enc (snd H)"
    by (simp add: H_def encodeStreamHeader_frame)
  show thesis
  proof (cases "fst H")
    case (Some p)
    then have ip: "isPanic p" by (auto simp: H_def split: if_splits dest: encodeStreamHeader_Some)
    from Some have "encodeUnmarshaled env dp tu bs m enc = (Some p, snd H)"
      unfolding eq0 by (cases H) simp
    then show thesis using ip frH by (rule panic)
  next
    case None
    define e1 where "e1 = snd H"
    have e1: "e1 = enc\<lparr>stream := stream enc @ (if numEncoded enc = 0 then streamHeaderSpec env else [])\<rparr>"
      using None by (auto simp: e1_def H_def encodeStreamHeader_None split: if_splits)
    have H: "H = (None, e1)" using None by (cases H) (simp add: e1_def)
    have fr1: "frame enc e1" using frH by (simp add: e1_def)
    define W where "W = writeControl env tu e1"
    have frW: "frame e1 (snd W)" and preW: "prefix pre (stream (snd W))"
      using writeControl_stream [of e1 tu env] by (simp_all add: W_def e1 pre_def)
    show thesis
    proof (cases "fst W")
      case (Some p)
      then have ip: "isPanic p" by (auto simp: W_def dest: writeControl_Some)
      have frw: "frame enc (snd W)" using fr1 frW by (rule frame_trans)
      from Some have "encodeUnmarshaled env dp tu bs m enc = (Some p, snd W)"
        unfolding eq0 H by (cases W) (simp add: W_def)
      then show thesis using ip frw by (rule panic)
    next
      case None
      define e2 where "e2 = snd W"
      have W: "writeControl env tu e1 = (None, e2)" using None by (cases W) (simp add: e2_def W_def)
      obtain werr ts bits where wt:
        "WriteTime env (timestampEncoder e2) (stream e2) (Timestamp dp) tu = (werr, ts, bits)"
        by (metis prod_cases3)
      define e3 where "e3 = e2\<lparr>stream := stream e2 @ bits, timestampEncoder := ts\<rparr>"
      have fr3: "frame enc e3"
        using fr1 frW by (auto simp: e3_def e2_def frame_def)
      have pre3: "prefix pre (stream e3)"
        using preW by (auto simp: e3_def e2_def prefix_def)
      show thesis
      proof (cases werr)
        case (Some err)
        then have "encodeUnmarshaled env dp tu bs m enc
                     = (Some (errEncodingTimestamp err), e3\<lparr>hardErr := Some err\<rparr>)"
          unfolding eq0 H by (simp add: W wt e3_def)
        then show thesis using fr3 pre3 by (rule timeErr)
      next
        case None
        obtain perr e4 where pr: "encodeProto env m e3 = (perr, e4)"
          by (cases "encodeProto env m e3")
        have fr4: "frame enc e4"
          using frame_trans [OF fr3 encodeProto_frame [of e3 env m]] by (simp add: pr)
        have pre4: "prefix pre (stream e4)"
          using frame_prefix [OF encodeProto_frame [of e3 env m] pre3] by (simp add: pr)
        show thesis
        proof (cases perr)
          case (Some err)
          show thesis
          proof (cases "isPanic err")
            case True
            have "encodeUnmarshaled env dp tu bs m enc = (Some err, e4)"
              unfolding eq0 H using None Some True by (simp add: W wt e3_def [symmetric] pr)
            then show thesis using True fr4 by (rule panic)
          next
            case False
            have "encodeUnmarshaled env dp tu bs m enc
                    = (Some (errEncodingProto err), e4\<lparr>hardErr := Some err\<rparr>)"
              unfolding eq0 H using None Some False by (simp add: W wt e3_def [symmetric] pr)
            then show thesis using fr4 pre4 by (rule protoErr)
          qed
        next
          case perrNone: None
          have "encodeUnmarshaled env dp tu bs m enc =
                 (None, e4\<lparr>numEncoded := numEncoded e4 + 1, lastEncodedDP := dp,
                          stats := IncUncompressedBytes (int (length bs)) (stats e4)\<rparr>)"
            unfolding eq0 H using None perrNone by (simp add: W wt e3_def [symmetric] pr)
          then show thesis using fr4 pre4 by (rule ok)
        qed
      qed
    qed
  qed
qed



subsection \<open>The outcomes of Encode\<close>

lemma isUsable_None: "isUsable enc = None \<longleftrightarrow> \<not> closed enc \<and> hardErr enc = None"
  by (auto simp: isUsable_def split: option.splits)

lemma Encode_cases:
  fixes env :: "('m, 't, 'f, 'i) env" and enc :: "('m, 't, 'f, 'i) encoder" and tu :: xtimeUnit
  defines "pre \<equiv> stream enc @ (if numEncoded enc = 0 then streamHeaderSpec env else [])
                    @ controlPrefixSpec (tu \<noteq> TimeUnit env (timestampEncoder enc))
                        (\<not> hasEncodedSchema enc)"
  obtains
    (unusable) u where "isUsable enc = Some u" "Encode env dp tu bs enc = (Some u, enc)"
  | (noSchema) "isUsable enc = None" "schema enc = None"
      "Encode env dp tu bs enc = (Some errEncoderSchemaIsRequired, enc)"
  | (soft) sch uerr m where "isUsable enc = None" "schema enc = Some sch"
      "Unmarshal env (case unmarshaled enc of None \<Rightarrow> NewMessage env sch | Some u \<Rightarrow> u) bs = (uerr, m)"
      "uerr \<noteq> None \<or> GetUnknownFields env m \<noteq> []"
      "Encode env dp tu bs enc =
         (Some (case uerr of Some c \<Rightarrow> errUnmarshalingAnnotation c
                           | None \<Rightarrow> errEncoderMessageHasUnknownFields),
          enc\<lparr>unmarshaled := Some m\<rparr>)"
  | (panic) p e where "isUsable enc = None" "Encode env dp tu bs enc = (Some p, e)" "isPanic p"
      "frame enc e"
  | (timeErr) err e where "isUsable enc = None"
      "Encode env dp tu bs enc = (Some (errEncodingTimestamp err), e\<lparr>hardErr := Some err\<rparr>)"
      "frame enc e" "prefix pre (stream e)"
  | (protoErr) err e where "isUsable enc = None"
      "Encode env dp tu bs enc = (Some (errEncodingProto err), e\<lparr>hardErr := Some err\<rparr>)"
      "frame enc e" "prefix pre (stream e)"
  | (ok) e where "isUsable enc = None"
      "Encode env dp tu bs enc =
         (None, e\<lparr>numEncoded := numEncoded e + 1, lastEncodedDP := dp\<lparr>Value := 0\<rparr>,
                  stats := IncUncompressedBytes (int (length bs)) (stats e)\<rparr>)"
      "frame enc e" "prefix pre (stream e)"
proof (cases "isUsable enc")
  case (Some u)
  then have "Encode env dp tu bs enc = (Some u, enc)" by (simp add: Encode_def)
  with Some show thesis by (rule unusable)
next
  case None
  show thesis
  proof (cases "schema enc")
    case noS: None
    with None have "Encode env dp tu bs enc = (Some errEncoderSchemaIsRequired, enc)"
      by (simp add: Encode_def)
    with None noS show thesis by (rule noSchema)
  next
    case (Some sch)
    obtain uerr m where um:
      "Unmarshal env (case unmarshaled enc of None \<Rightarrow> NewMessage env sch | Some u \<Rightarrow> u) bs = (uerr, m)"
      by (cases "Unmarshal env (case unmarshaled enc of None \<Rightarrow> NewMessage env sch | Some u \<Rightarrow> u) bs")
    let ?e1 = "enc\<lparr>unmarshaled := Some m\<rparr>"
    show thesis
    proof (cases "uerr \<noteq> None \<or> GetUnknownFields env m \<noteq> []")
      case True
      then have "Encode env dp tu bs enc =
         (Some (case uerr of Some c \<Rightarrow> errUnmarshalingAnnotation c
                           | None \<Rightarrow> errEncoderMessageHasUnknownFields), ?e1)"
        using None Some um by (auto simp: Encode_def Let_def split: option.splits)
      with None Some um True show thesis by (rule soft)
    next
      case False
      then have eq: "Encode env dp tu bs enc = encodeUnmarshaled env (dp\<lparr>Value := 0\<rparr>) tu bs m ?e1"
        using None Some um by (auto simp: Encode_def Let_def split: option.splits)
      have fr: "frame enc ?e1" by (simp add: frame_def)
      have pre: "pre = stream ?e1 @ (if numEncoded ?e1 = 0 then streamHeaderSpec env else [])
                    @ controlPrefixSpec (tu \<noteq> TimeUnit env (timestampEncoder ?e1))
                        (\<not> hasEncodedSchema ?e1)"
        by (simp add: pre_def)
      show thesis
      proof (cases rule: encodeUnmarshaled_cases [of env "dp\<lparr>Value := 0\<rparr>" tu bs m ?e1])
        case (panic p e)
        from panic(1) have "Encode env dp tu bs enc = (Some p, e)" by (simp add: eq)
        then show ?thesis using panic(2) frame_trans [OF fr panic(3)] None
          by (intro that(4)) auto
      next
        case (timeErr err e)
        from timeErr(1) have "Encode env dp tu bs enc = (Some (errEncodingTimestamp err), e\<lparr>hardErr := Some err\<rparr>)"
          by (simp add: eq)
        then show ?thesis using frame_trans [OF fr timeErr(2)] timeErr(3) None
          unfolding pre [symmetric] by (intro that(5)) auto
      next
        case (protoErr err e)
        from protoErr(1) have "Encode env dp tu bs enc = (Some (errEncodingProto err), e\<lparr>hardErr := Some err\<rparr>)"
          by (simp add: eq)
        then show ?thesis using frame_trans [OF fr protoErr(2)] protoErr(3) None
          unfolding pre [symmetric] by (intro that(6)) auto
      next
        case (ok e)
        from ok(1) have "Encode env dp tu bs enc =
         (None, e\<lparr>numEncoded := numEncoded e + 1, lastEncodedDP := dp\<lparr>Value := 0\<rparr>,
                  stats := IncUncompressedBytes (int (length bs)) (stats e)\<rparr>)"
          by (simp add: eq)
        then show ?thesis using frame_trans [OF fr ok(2)] ok(3) None
          unfolding pre [symmetric] by (intro that(7)) auto
      qed
    qed
  qed
qed


lemma byteBits_length [simp]: "length (byteBits b) = 8"
  by (simp add: byteBits_def bitsOfWord_def)

lemma bytesToBits_length [simp]: "length (bytesToBits bs) = 8 * length bs"
  by (induction bs) (simp_all add: bytesToBits_def)


lemma controlPrefixSpec_not_Nil: "controlPrefixSpec a b \<noteq> []"
  by (simp add: controlPrefixSpec_def)

subsection \<open>Sequences of calls\<close>



lemma applyCall_hardErr:
  assumes "applyCall env c enc = (r, enc')" and "hardErr enc = Some cause"
  shows "hardErr enc' = Some cause"
proof (cases c)
  case (CallEncode dp tu bs)
  with assms have "Encode env dp tu bs enc = (r, enc')" by simp
  moreover have "isUsable enc \<noteq> None" using assms(2) by (simp add: isUsable_def)
  ultimately have "enc' = enc" by (auto simp: Encode_def split: option.splits)
  with assms(2) show ?thesis by simp
next
  case CallLastEncoded
  with assms show ?thesis
    by (auto simp: LastEncoded_def Let_def split: option.splits if_splits)
next
  case (CallSetSchema descr)
  with assms show ?thesis
    by (auto simp: SetSchema_def resetSchema_def split: option.splits if_splits)
next
  case (CallReset start capacity descr)
  with assms show ?thesis
    by (auto simp: Reset_def reset_def Let_def SetSchema_def resetSchema_def
        split: option.splits if_splits)
next
  case CallClose
  with assms show ?thesis
    by (auto simp: Close_def Reset_def reset_def Let_def SetSchema_def resetSchema_def
        split: option.splits if_splits)
next
  case CallDiscard
  with assms show ?thesis
    by (auto simp: Discard_def discard_def segment_def Close_def Reset_def reset_def Let_def
        SetSchema_def resetSchema_def
        split: option.splits if_splits)
next
  case (CallDiscardReset start capacity descr)
  with assms show ?thesis
    by (auto simp: DiscardReset_def discard_def segment_def Reset_def reset_def Let_def
        SetSchema_def resetSchema_def
        split: option.splits if_splits)
qed

lemma run_hardErr:
  "run env calls enc = Some enc' \<Longrightarrow> hardErr enc = Some cause \<Longrightarrow> hardErr enc' = Some cause"
proof (induction calls arbitrary: enc)
  case Nil
  then show ?case by simp
next
  case (Cons c cs)
  obtain r e1 where a: "applyCall env c enc = (r, e1)" by (cases "applyCall env c enc")
  with Cons.prems(1) have rest: "run env cs e1 = Some enc'"
    by (auto split: if_splits)
  from Cons.IH [OF rest applyCall_hardErr [OF a Cons.prems(2)]] show ?case .
qed

lemma lifecycle_calls_run:
  "run env [CallClose, CallReset start capacity descr, CallDiscard,
            CallDiscardReset start capacity descr] enc \<noteq> None"
  by (simp add: panicked_def)



subsection \<open>The width of an index\<close>

text \<open>\<open>ceilLog2 n\<close> is the least \<open>k\<close> with \<open>n \<le> 2\<^sup>k\<close>.\<close>

lemma ceilLog2_bounds:
  "n \<le> 2 ^ ceilLog2 n \<and> (1 < n \<longrightarrow> 2 ^ (ceilLog2 n - 1) < n)"
proof (induction n rule: ceilLog2.induct)
  case (1 n)
  show ?case
  proof (cases "n \<le> 1")
    case True
    then show ?thesis by (subst ceilLog2.simps, subst (2) ceilLog2.simps) simp
  next
    case False
    let ?h = "(n + 1) div 2"
    from False have eq: "ceilLog2 n = Suc (ceilLog2 ?h)" by (subst ceilLog2.simps) simp
    from "1.IH" [OF False] have up: "?h \<le> 2 ^ ceilLog2 ?h"
      and lo: "1 < ?h \<longrightarrow> 2 ^ (ceilLog2 ?h - 1) < ?h" by simp_all
    have a: "n \<le> 2 * ?h" by simp
    from up a have u: "n \<le> 2 ^ ceilLog2 n" unfolding eq by simp
    have l: "2 ^ (ceilLog2 n - 1) < n"
    proof (cases "1 < ?h")
      case True
      with lo have "2 ^ (ceilLog2 ?h - 1) < ?h" by simp
      moreover from True have "0 < ceilLog2 ?h" by (subst ceilLog2.simps) simp
      ultimately have lt: "(2::nat) ^ ceilLog2 ?h < 2 * ?h"
        by (cases "ceilLog2 ?h") simp_all
      from \<open>0 < ceilLog2 ?h\<close> obtain c where "ceilLog2 ?h = Suc c"
        by (cases "ceilLog2 ?h") simp_all
      then have "(2::nat) ^ ceilLog2 ?h = 2 * 2 ^ c" by simp
      then obtain k where k: "(2::nat) ^ ceilLog2 ?h = 2 * k" ..
      from lt k have "k + 1 \<le> ?h" by simp
      then have "2 * (k + 1) \<le> 2 * ?h" by simp
      also have "2 * ?h \<le> n + 1" by simp
      finally have "2 * k < n" by simp
      then show ?thesis unfolding eq k [symmetric] by simp
    next
      case h1: False
      with False have "?h = 1" by simp
      then have "ceilLog2 ?h = 0" by (subst ceilLog2.simps) simp
      with False show ?thesis unfolding eq by simp
    qed
    from u l show ?thesis by simp
  qed
qed

subsection \<open>The loops of the dictionary\<close>

lemma shiftLoop_length [simp]: "length (shiftLoop i xs) = length xs"
proof (induction i xs rule: shiftLoop.induct)
  case (1 i existing)
  then show ?case by (subst shiftLoop.simps) (simp add: Let_def)
qed

lemma shiftLoop_nth:
  "k < length xs \<Longrightarrow>
     shiftLoop i xs ! k = (if i \<le> k \<and> Suc k < length xs then xs ! Suc k else xs ! k)"
proof (induction i xs arbitrary: k rule: shiftLoop.induct)
  case (1 i existing)
  show ?case
  proof (cases "i < length existing \<and> \<not> i + 1 \<ge> length existing")
    case True
    then have eq: "shiftLoop i existing = shiftLoop (i + 1) (existing[i := existing ! (i + 1)])"
      by (subst shiftLoop.simps) (simp add: Let_def)
    have "shiftLoop (i + 1) (existing[i := existing ! (i + 1)]) ! k =
            (if i + 1 \<le> k \<and> Suc k < length (existing[i := existing ! (i + 1)])
             then existing[i := existing ! (i + 1)] ! Suc k
             else existing[i := existing ! (i + 1)] ! k)"
      using True "1.prems" by (intro "1.IH") (auto simp: Let_def)
    with True "1.prems" show ?thesis
      unfolding eq by (auto simp: nth_list_update)
  next
    case False
    then have "shiftLoop i existing = existing"
      by (subst shiftLoop.simps) (auto simp: Let_def)
    with False "1.prems" show ?thesis by auto
  qed
qed

lemma shiftLoop_replace_last:
  assumes "xs \<noteq> []"
  shows "(shiftLoop 0 xs)[length xs - 1 := st] = tl xs @ [st]"
proof (rule nth_equalityI)
  show "length ((shiftLoop 0 xs)[length xs - 1 := st]) = length (tl xs @ [st])"
    using assms by simp
next
  fix k assume "k < length ((shiftLoop 0 xs)[length xs - 1 := st])"
  then have k: "k < length xs" by simp
  show "(shiftLoop 0 xs)[length xs - 1 := st] ! k = (tl xs @ [st]) ! k"
  proof (cases "k = length xs - 1")
    case True
    with k show ?thesis by (simp add: nth_append)
  next
    case False
    with k have sk: "Suc k < length xs" by simp
    then have "k < length (tl xs)" by simp
    with k False sk show ?thesis
      by (simp add: shiftLoop_nth nth_append nth_tl)
  qed
qed

lemma moveLoop_eq:
  "j < length xs \<Longrightarrow> moveLoop j xs = take j xs @ drop (Suc j) xs @ [xs ! j]"
proof (induction j xs rule: moveLoop.induct)
  case (1 j existing)
  show ?case
  proof (cases "j + 1 \<ge> length existing")
    case True
    with "1.prems" have j: "j = length existing - 1" by simp
    from True "1.prems" have "moveLoop j existing = existing"
      by (subst moveLoop.simps) (simp add: Let_def)
    moreover have "take j existing @ drop (Suc j) existing @ [existing ! j] = existing"
      using "1.prems" True by (simp add: take_Suc_conv_app_nth [symmetric])
    ultimately show ?thesis by simp
  next
    case False
    let ?xs' = "existing[j := existing ! (j + 1), j + 1 := existing ! j]"
    from False "1.prems" have eq: "moveLoop j existing = moveLoop (j + 1) ?xs'"
      by (subst moveLoop.simps) (simp add: Let_def)
    have IH: "moveLoop (j + 1) ?xs' = take (j + 1) ?xs' @ drop (Suc (j + 1)) ?xs' @ [?xs' ! (j + 1)]"
      using False "1.prems" by (intro "1.IH") (auto simp: Let_def)
    have a: "take (j + 1) ?xs' = take j existing @ [existing ! (j + 1)]"
      using False "1.prems" by (simp add: take_Suc_conv_app_nth)
    have b: "drop (Suc (j + 1)) ?xs' = drop (Suc (Suc j)) existing"
      by simp
    have c: "?xs' ! (j + 1) = existing ! j"
      using False by simp
    have d: "drop (Suc j) existing = existing ! (j + 1) # drop (Suc (Suc j)) existing"
      using False by (simp add: Cons_nth_drop_Suc)
    show ?thesis unfolding eq IH a b c d by simp
  qed
qed

subsection \<open>Bits and bytes\<close>

lemma bitsToBytes_length: "length (bitsToBytes os) = (length os + 7) div 8"
proof (induction os rule: bitsToBytes.induct)
  case 1
  show ?case by simp
next
  case (2 b bs)
  show ?case
  proof (cases "length bs \<ge> 7")
    case True
    then have "(length bs - 7 + 7) div 8 + 1 = (length bs + 8) div 8" by simp
    with 2 True show ?thesis by simp
  next
    case False
    with 2 show ?thesis by simp
  qed
qed

lemma take_bitsToBytes_append:
  "8 * k \<le> length os \<Longrightarrow> take k (bitsToBytes (os @ xs)) = take k (bitsToBytes os)"
proof (induction os arbitrary: k rule: bitsToBytes.induct)
  case 1
  then show ?case by simp
next
  case (2 b bs)
  show ?case
  proof (cases k)
    case 0
    then show ?thesis by simp
  next
    case (Suc k')
    with "2.prems" have len: "7 \<le> length bs" and k': "8 * k' \<le> length (drop 7 bs)" by auto
    from "2.IH" [OF k'] have "take k' (bitsToBytes (drop 7 bs @ xs)) = take k' (bitsToBytes (drop 7 bs))" .
    with len Suc show ?thesis by simp
  qed
qed

lemma referencedBytes_append:
  assumes "startPos st + lengthD st \<le> length os div 8"
  shows "referencedBytes (os @ xs) st = referencedBytes os st"
proof -
  have "8 * (lengthD st + startPos st) \<le> length os" using assms by simp
  then have "take (lengthD st + startPos st) (bitsToBytes (os @ xs))
           = take (lengthD st + startPos st) (bitsToBytes os)"
    by (rule take_bitsToBytes_append)
  then show ?thesis
    by (simp add: referencedBytes_def Rawbytes_def take_drop)
qed

lemma bytesMatch_in_stream:
  assumes "startPos st + lengthD st \<le> length os div 8"
  shows "bytesMatchEncodedDictionaryValue (fst (Rawbytes (os @ xs))) st cur
           = Inr (referencedBytes os st = cur)"
proof -
  have "startPos st + lengthD st \<le> (length (os @ xs) + 7) div 8"
    using assms by simp
  then show ?thesis
    using referencedBytes_append [OF assms, of xs]
    by (simp add: bytesMatchEncodedDictionaryValue_def Let_def Rawbytes_def bitsToBytes_length
        referencedBytes_def)
qed

lemma scanBytesDict_extract:
  assumes "list_all (\<lambda>st. startPos st + lengthD st \<le> length os div 8) d"
  shows "scanBytesDict h (fst (Rawbytes (os @ xs))) cur d j =
           Inr (case List.extract (\<lambda>st. hash st = h \<and> referencedBytes os st = cur) d of
                  None \<Rightarrow> None
                | Some (before, entry, after) \<Rightarrow> Some (j + length before))"
  using assms
proof (induction d arbitrary: j)
  case Nil
  show ?case by (simp add: extract_Nil_code)
next
  case (Cons st d)
  from Cons.prems have st: "startPos st + lengthD st \<le> length os div 8"
    and d: "list_all (\<lambda>st. startPos st + lengthD st \<le> length os div 8) d" by simp_all
  show ?case
    using Cons.IH [OF d, of "j + 1"] bytesMatch_in_stream [OF st, of xs cur]
    by (auto simp: extract_Cons_code split: option.splits)
qed

lemma extract_take_drop:
  assumes "List.extract P d = Some (before, entry, after)"
  shows "before = take (length before) d \<and> after = drop (Suc (length before)) d
         \<and> entry = d ! length before \<and> length before < length d"
  using assms by (auto simp: extract_Some_iff)

lemma pad_aligned: "(L + (8 - L mod 8) mod 8) mod 8 = (0 :: nat)"
proof -
  have "(L + (8 - L mod 8) mod 8) mod 8 = (L mod 8 + (8 - L mod 8) mod 8) mod 8"
    by (simp add: mod_add_left_eq)
  also have "\<dots> = 0"
  proof (cases "L mod 8 = 0")
    case True
    then show ?thesis by simp
  next
    case False
    have "L mod 8 < 8" by simp
    with False have "(8 - L mod 8) mod 8 = 8 - L mod 8" by simp
    with \<open>L mod 8 < 8\<close> show ?thesis by simp
  qed
  finally show ?thesis .
qed

lemma word_of_nat_less_2p56: "n < 2 ^ 56 \<Longrightarrow> (word_of_nat n :: 64 word) < 2 ^ 56"
proof -
  assume n: "n < 2 ^ 56"
  then have "n < 2 ^ 64"
    by (rule less_le_trans) simp
  then have "unat (word_of_nat n :: 64 word) = n"
    by (simp add: unat_of_nat take_bit_nat_eq_self)
  with n show ?thesis by (simp add: word_less_nat_alt)
qed


subsection \<open>The bytes field\<close>

lemma setBytesFieldDict_same:
  "i < length (customFields e) \<Longrightarrow> setBytesFieldDict i (bytesFieldDict (customFields e ! i)) e = e"
  by (simp add: setBytesFieldDict_def)

lemma addToBytesDict_eq:
  "addToBytesDict env i st e =
     (let d = bytesFieldDict (customFields e ! i) in
      if int (length d) < ByteFieldDictionaryLRUSize env
      then (None, setBytesFieldDict i (d @ [st]) e)
      else if d = [] then (Some (panicIndexOutOfRange (- 1) 0), setBytesFieldDict i d e)
      else (None, setBytesFieldDict i (tl d @ [st]) e))"
proof -
  let ?d = "bytesFieldDict (customFields e ! i)"
  have a: "shiftLoop 0 ([] :: encoderBytesFieldDictState list) = []"
    by (subst shiftLoop.simps) simp
  have b: "?d \<noteq> [] \<Longrightarrow> (shiftLoop 0 ?d)[length ?d - 1 := st] = tl ?d @ [st]"
    by (rule shiftLoop_replace_last)
  show ?thesis
  proof (cases "?d = []")
    case True
    with a show ?thesis by (simp add: addToBytesDict_def Let_def)
  next
    case False
    with b show ?thesis by (simp add: addToBytesDict_def Let_def del: One_nat_def)
  qed
qed

lemma encodeBytesLiteral_eq:
  assumes "length cur < 2 ^ 56"
  shows "encodeBytesLiteral env i h cur e =
     (let lit = stream e @ [True] @ bytesToBits (putUvarint (word_of_nat (length cur)));
          padded = lit @ replicate ((8 - length lit mod 8) mod 8) False
      in addToBytesDict env i \<lparr>hash = h, startPos = length padded div 8, lengthD = length cur\<rparr>
           (e\<lparr>stream := padded @ bytesToBits cur\<rparr>))"
proof -
  let ?lit = "stream e @ [True] @ bytesToBits (putUvarint (word_of_nat (length cur)))"
  let ?padded = "?lit @ replicate ((8 - length ?lit mod 8) mod 8) False"
  have al: "length ?padded mod 8 = 0"
    unfolding length_append length_replicate by (rule pad_aligned)
  have "(length ?padded + 7) div 8 = length ?padded div 8"
  proof -
    from al obtain q where "length ?padded = 8 * q" by (auto simp: mod_eq_0_iff_dvd)
    then show ?thesis by simp
  qed
  then have pos: "length (bitsToBytes ?padded) = length ?padded div 8"
    by (simp only: bitsToBytes_length)
  show ?thesis
    using word_of_nat_less_2p56 [OF assms] pos
    by (simp add: encodeBytesLiteral_def Let_def encodeVarInt_def WriteBit_def WriteBytes_def
        padToNextByte_eq Rawbytes_def opCode_defs add.assoc)
qed


lemma dictInStream_append: "dictInStream os d \<Longrightarrow> dictInStream (os @ xs) d"
  by (induction d) (auto simp: dictInStream_def intro: order_trans div_le_mono)

lemma encodeBytesValue_spec:
  assumes i: "i < length (customFields enc)"
    and v: "bytesOfValue iVal = Some cur"
    and inv: "dictInStream (stream enc) (bytesFieldDict (customFields enc ! i))"
    and cap: "1 \<le> ByteFieldDictionaryLRUSize env"
    and len: "length cur < 2 ^ 56"
  shows "encodeBytesValue env i iVal enc =
           (None, setBytesFieldDict i
                    (snd (bytesValueSpec env (stream enc) (bytesFieldDict (customFields enc ! i)) cur))
                    (enc\<lparr>stream :=
                       fst (bytesValueSpec env (stream enc) (bytesFieldDict (customFields enc ! i)) cur)\<rparr>))"
proof -
  let ?d = "bytesFieldDict (customFields enc ! i)"
  let ?os = "stream enc"
  let ?h = "Sum64 env cur"
  let ?same = "\<lambda>st. hash st = ?h \<and> referencedBytes ?os st = cur"
  have inv': "list_all (\<lambda>st. startPos st + lengthD st \<le> length ?os div 8) ?d"
    using inv by (simp add: dictInStream_def)
  show ?thesis
  proof (cases "?d \<noteq> [] \<and> ?same (last ?d)")
    case True
    then have l: "?d ! (length ?d - 1) = last ?d" by (simp add: last_conv_nth)
    from True inv' have "startPos (last ?d) + lengthD (last ?d) \<le> length ?os div 8"
      by (auto simp: list_all_iff)
    from bytesMatch_in_stream [OF this, of "[]" cur] True
    have m: "bytesMatchEncodedDictionaryValue (fst (Rawbytes ?os)) (last ?d) cur = Inr True"
      by simp
    have "encodeBytesValue env i iVal enc = (None, enc\<lparr>stream := ?os @ [False]\<rparr>)"
      using True v l m
      by (simp add: encodeBytesValue_def Let_def WriteBit_def opCode_defs del: One_nat_def)
    moreover have "setBytesFieldDict i ?d (enc\<lparr>stream := ?os @ [False]\<rparr>) = enc\<lparr>stream := ?os @ [False]\<rparr>"
      using setBytesFieldDict_same [of i "enc\<lparr>stream := ?os @ [False]\<rparr>"] i by simp
    ultimately show ?thesis using True by (simp add: bytesValueSpec_def Let_def)
  next
    case False
    have chk: "(if length ?d > 0 \<and> ?h = hash (?d ! (length ?d - 1))
                then bytesMatchEncodedDictionaryValue (fst (Rawbytes ?os)) (?d ! (length ?d - 1)) cur
                else Inr False) = Inr False"
    proof (cases "?d = []")
      case True
      then show ?thesis by simp
    next
      case ne: False
      then have l: "?d ! (length ?d - 1) = last ?d" by (simp add: last_conv_nth)
      from ne inv' have "startPos (last ?d) + lengthD (last ?d) \<le> length ?os div 8"
        by (auto simp: list_all_iff)
      from bytesMatch_in_stream [OF this, of "[]" cur]
      have "bytesMatchEncodedDictionaryValue (fst (Rawbytes ?os)) (last ?d) cur
              = Inr (referencedBytes ?os (last ?d) = cur)" by simp
      moreover from False ne have "hash (last ?d) = ?h \<longrightarrow> referencedBytes ?os (last ?d) \<noteq> cur"
        by simp
      ultimately show ?thesis unfolding l by auto
    qed
    have eq1: "encodeBytesValue env i iVal enc = encodeBytesChanged env i ?h cur ?d enc"
      using v chk by (simp add: encodeBytesValue_def Let_def del: One_nat_def)
    have scan: "scanBytesDict ?h (fst (Rawbytes (?os @ [True]))) cur ?d 0 =
           Inr (case List.extract ?same ?d of
                  None \<Rightarrow> None
                | Some (before, entry, after) \<Rightarrow> Some (0 + length before))"
      by (rule scanBytesDict_extract [OF inv'])
    show ?thesis
    proof (cases "List.extract ?same ?d")
      case None
      let ?e1 = "enc\<lparr>stream := ?os @ [True]\<rparr>"
      define lit where "lit = ?os @ [True, True] @ bytesToBits (putUvarint (word_of_nat (length cur)))"
      define padded where "padded = lit @ replicate ((8 - length lit mod 8) mod 8) False"
      define st where "st = \<lparr>hash = ?h, startPos = length padded div 8, lengthD = length cur\<rparr>"
      define d' where "d' = (if int (length ?d) < ByteFieldDictionaryLRUSize env then ?d else tl ?d) @ [st]"
      let ?E = "enc\<lparr>stream := padded @ bytesToBits cur\<rparr>"
      have "encodeBytesValue env i iVal enc = encodeBytesLiteral env i ?h cur ?e1"
        unfolding eq1 using scan None
        by (simp add: encodeBytesChanged_def Let_def WriteBit_def opCode_defs)
      also have "\<dots> = addToBytesDict env i st ?E"
        unfolding encodeBytesLiteral_eq [OF len]
        by (simp add: Let_def lit_def padded_def st_def add.assoc)
      also have "\<dots> = (None, setBytesFieldDict i d' ?E)"
      proof (cases "int (length ?d) < ByteFieldDictionaryLRUSize env")
        case True
        then show ?thesis by (simp add: addToBytesDict_eq Let_def d'_def)
      next
        case nlt: False
        with cap have "?d \<noteq> []" by auto
        with nlt show ?thesis by (simp add: addToBytesDict_eq Let_def d'_def)
      qed
      finally have A: "encodeBytesValue env i iVal enc = (None, setBytesFieldDict i d' ?E)" .
      have C: "bytesValueSpec env ?os ?d cur = (padded @ bytesToBits cur, d')"
        using False None
        by (simp add: bytesValueSpec_def Let_def lit_def padded_def st_def d'_def)
      show ?thesis unfolding A C by simp
    next
      case (Some t)
      obtain before entry after where t: "t = (before, entry, after)" by (cases t)
      from extract_take_drop [OF Some [unfolded t]]
      have b: "before = take (length before) ?d" and a: "after = drop (Suc (length before)) ?d"
        and e: "entry = ?d ! length before" and lt: "length before < length ?d" by simp_all
      have mv: "moveLoop (length before) ?d = before @ after @ [entry]"
        using moveLoop_eq [OF lt] a b e by simp
      have "encodeBytesValue env i iVal enc =
              (None, moveToEndOfBytesDict i (length before)
                 (enc\<lparr>stream := ?os @ [True, False]
                    @ bitsOfWord (word_of_nat (length before) :: 64 word)
                        (ceilLog2 (nat (ByteFieldDictionaryLRUSize env)))\<rparr>))"
        unfolding eq1 using scan Some t
        by (simp add: encodeBytesChanged_def Let_def WriteBit_def WriteBits_def opCode_defs
            numBitsRequiredForNumUpToN_def)
      then have A: "encodeBytesValue env i iVal enc =
              (None, setBytesFieldDict i (before @ after @ [entry])
                 (enc\<lparr>stream := ?os @ [True, False]
                    @ bitsOfWord (word_of_nat (length before) :: 64 word)
                        (ceilLog2 (nat (ByteFieldDictionaryLRUSize env)))\<rparr>))"
        using mv by (simp add: moveToEndOfBytesDict_def setBytesFieldDict_def)
      have "\<not> (?d \<noteq> [] \<and> ?same (last ?d))" using False .
      then have C: "bytesValueSpec env ?os ?d cur =
              (?os @ [True, False]
                 @ bitsOfWord (word_of_nat (length before) :: 64 word)
                     (ceilLog2 (nat (ByteFieldDictionaryLRUSize env))),
               before @ after @ [entry])"
        unfolding bytesValueSpec_def Let_def Some t by (simp only: if_False option.case prod.case)
      show ?thesis unfolding A C by simp
    qed
  qed
qed

subsection \<open>The bytes procedure, the residual path and the schema\<close>

lemma bytesValueSpec_inv:
  assumes "dictInStream os d"
  shows "dictInStream (fst (bytesValueSpec env os d cur)) (snd (bytesValueSpec env os d cur))"
proof -
  let ?h = "Sum64 env cur"
  let ?same = "\<lambda>st. hash st = ?h \<and> referencedBytes os st = cur"
  show ?thesis
  proof (cases "d \<noteq> [] \<and> ?same (last d)")
    case True
    then show ?thesis
      using dictInStream_append [OF assms, of "[False]"] by (simp add: bytesValueSpec_def Let_def)
  next
    case False
    show ?thesis
    proof (cases "List.extract ?same d")
      case (Some t)
      obtain before entry after where t: "t = (before, entry, after)" by (cases t)
      from Some t have d: "d = before @ entry # after" by (auto simp: extract_Some_iff)
      define os' where "os' = os @ [True, False]
                 @ bitsOfWord (word_of_nat (length before) :: 64 word)
                     (ceilLog2 (nat (ByteFieldDictionaryLRUSize env)))"
      have "dictInStream os' d" unfolding os'_def by (rule dictInStream_append [OF assms])
      then have "dictInStream os' (before @ after @ [entry])"
        unfolding d by (auto simp: dictInStream_def)
      moreover have "bytesValueSpec env os d cur = (os', before @ after @ [entry])"
        using False unfolding bytesValueSpec_def Let_def Some t os'_def
        by (simp only: if_False option.case prod.case)
      ultimately show ?thesis by simp
    next
      case None
      define lit where "lit = os @ [True, True] @ bytesToBits (putUvarint (word_of_nat (length cur)))"
      define padded where "padded = lit @ replicate ((8 - length lit mod 8) mod 8) False"
      define st where "st = \<lparr>hash = ?h, startPos = length padded div 8, lengthD = length cur\<rparr>"
      define d' where "d' = (if int (length d) < ByteFieldDictionaryLRUSize env then d else tl d) @ [st]"
      have C: "bytesValueSpec env os d cur = (padded @ bytesToBits cur, d')"
        using False None
        by (simp add: bytesValueSpec_def Let_def lit_def padded_def st_def d'_def)
      define rest where "rest = [True, True] @ bytesToBits (putUvarint (word_of_nat (length cur)))
                 @ replicate ((8 - length lit mod 8) mod 8) False @ bytesToBits cur"
      have "padded @ bytesToBits cur = os @ rest"
        by (simp add: padded_def lit_def rest_def)
      then have a: "dictInStream (padded @ bytesToBits cur) d"
        using dictInStream_append [OF assms, of rest] by simp
      then have b: "dictInStream (padded @ bytesToBits cur) (tl d)"
        by (cases d) (simp_all add: dictInStream_def)
      have "startPos st + lengthD st \<le> length (padded @ bytesToBits cur) div 8"
        by (simp add: st_def)
      with a b have "dictInStream (padded @ bytesToBits cur) d'"
        by (simp add: d'_def dictInStream_def)
      with C show ?thesis by simp
    qed
  qed
qed

lemma encodeBytesLiteral_no_index_panic:
  assumes "1 \<le> ByteFieldDictionaryLRUSize env"
  shows "fst (encodeBytesLiteral env i h cur e) \<noteq> Some (panicIndexOutOfRange (- 1) n)"
proof -
  have a: "fst (addToBytesDict env i st e') = None" for st e'
    using assms by (auto simp: addToBytesDict_eq Let_def)
  show ?thesis
    unfolding encodeBytesLiteral_def Let_def encodeVarInt_def
    by (simp add: a)
qed

lemma encodeBytesValue_no_index_panic:
  assumes "1 \<le> ByteFieldDictionaryLRUSize env"
  shows "fst (encodeBytesValue env i iVal enc) \<noteq> Some (panicIndexOutOfRange (- 1) n)"
proof -
  have c: "fst (encodeBytesChanged env i h cur d e) \<noteq> Some (panicIndexOutOfRange (- 1) n)" for h cur d e
    unfolding encodeBytesChanged_def Let_def
    using encodeBytesLiteral_no_index_panic [OF assms]
    by (auto split: sum.splits option.splits)
  show ?thesis
    unfolding encodeBytesValue_def Let_def
    using c by (auto split: sum.splits option.splits)
qed

lemma encodeBytesValue_size0_panic:
  assumes "ByteFieldDictionaryLRUSize env = 0" and "bytesFieldDict (customFields enc ! i) = []"
    and "bytesOfValue iVal = Some cur" and "length cur < 2 ^ 56"
  shows "fst (encodeBytesValue env i iVal enc) = Some (panicIndexOutOfRange (- 1) 0)"
proof -
  have "encodeBytesValue env i iVal enc
          = encodeBytesLiteral env i (Sum64 env cur) cur (enc\<lparr>stream := stream enc @ [True]\<rparr>)"
    using assms(2,3)
    by (simp add: encodeBytesValue_def Let_def encodeBytesChanged_def WriteBit_def opCode_defs)
  then show ?thesis
    using assms(1,2) by (simp add: encodeBytesLiteral_eq [OF assms(4)] Let_def addToBytesDict_eq)
qed

lemma encodeBitset_None:
  assumes "fst (encodeBitset vals enc) = None"
  shows "snd (encodeBitset vals enc) =
           enc\<lparr>stream := stream enc
             @ bytesToBits (putUvarint (word_of_int (foldl (\<lambda>mx v. if v > mx then v else mx) 0 vals)))
             @ bitsetBits vals\<rparr>"
proof -
  let ?mx = "foldl (\<lambda>mx v. if v > mx then v else mx) 0 vals"
  from assms have "fst (encodeVarInt (word_of_int ?mx) enc) = None"
    by (cases "encodeVarInt (word_of_int ?mx) enc")
       (auto simp: encodeBitset_def Let_def andThen_def split: option.splits)
  then have "encodeVarInt (word_of_int ?mx) enc =
               (None, enc\<lparr>stream := stream enc @ bytesToBits (putUvarint (word_of_int ?mx))\<rparr>)"
    using encodeVarInt_None [of "word_of_int ?mx" enc] by (simp add: prod_eq_iff)
  then show ?thesis
    by (simp add: encodeBitset_def Let_def foldl_WriteBit bitsetBits_def opCode_defs)
qed

lemma writeChangedProto_None:
  assumes "fst (writeChangedProto toDefault marshaled enc) = None"
  shows "snd (writeChangedProto toDefault marshaled enc) =
           enc\<lparr>stream := stream enc @ [True]
             @ (if toDefault = [] then [False]
                else [True]
                  @ bytesToBits (putUvarint (word_of_int
                       (foldl (\<lambda>mx v. if v > mx then v else mx) 0 toDefault)))
                  @ bitsetBits toDefault)
             @ bytesToBits (putUvarint (word_of_nat (length marshaled)))
             @ bytesToBits marshaled\<rparr>"
proof -
  let ?e1 = "enc\<lparr>stream := stream enc @ [True]\<rparr>"
  define B where "B = (if length toDefault > 0
         then encodeBitset toDefault (?e1\<lparr>stream := stream ?e1 @ [True]\<rparr>)
         else (None, ?e1\<lparr>stream := stream ?e1 @ [False]\<rparr>))"
  have eq: "writeChangedProto toDefault marshaled enc =
     andThen B (\<lambda>enc2. andThen (encodeVarInt (word_of_nat (length marshaled)) enc2)
                  (\<lambda>enc3. (None, enc3\<lparr>stream := WriteBytes marshaled (stream enc3)\<rparr>)))"
    by (simp add: writeChangedProto_def Let_def B_def WriteBit_def opCode_defs)
  from assms have bn: "fst B = None"
    unfolding eq by (cases B) (auto simp: andThen_def split: option.splits)
  define e2 where "e2 = snd B"
  have B: "B = (None, e2)" using bn by (simp add: e2_def prod_eq_iff)
  have e2: "e2 = enc\<lparr>stream := stream enc @ [True]
             @ (if toDefault = [] then [False]
                else [True]
                  @ bytesToBits (putUvarint (word_of_int
                       (foldl (\<lambda>mx v. if v > mx then v else mx) 0 toDefault)))
                  @ bitsetBits toDefault)\<rparr>"
  proof (cases "toDefault = []")
    case True
    then show ?thesis by (simp add: e2_def B_def)
  next
    case False
    with bn have "fst (encodeBitset toDefault (?e1\<lparr>stream := stream ?e1 @ [True]\<rparr>)) = None"
      by (simp add: B_def)
    from encodeBitset_None [OF this] False show ?thesis by (simp add: e2_def B_def)
  qed
  from assms have vn: "fst (encodeVarInt (word_of_nat (length marshaled)) e2) = None"
    unfolding eq B
    by (cases "encodeVarInt (word_of_nat (length marshaled)) e2")
       (auto simp: andThen_def split: option.splits)
  then have "encodeVarInt (word_of_nat (length marshaled)) e2 =
           (None, e2\<lparr>stream := stream e2 @ bytesToBits (putUvarint (word_of_nat (length marshaled)))\<rparr>)"
    using encodeVarInt_None [of "word_of_nat (length marshaled)" e2] by (simp add: prod_eq_iff)
  then show ?thesis
    unfolding eq B by (simp add: WriteBytes_def e2)
qed

lemma customAndProtoFields_classifies:
  "sorted (map fieldNum (fst (customAndProtoFields env sch)))
   \<and> set (map fieldNum (fst (customAndProtoFields env sch)))
       = fdNumber ` {fd \<in> set sch. fdCustomType fd \<noteq> notCustomEncodedField}
   \<and> snd (customAndProtoFields env sch)
       = map fdNumber (filter (\<lambda>fd. fdCustomType fd = notCustomEncodedField) sch)"
proof -
  have "fieldNum ` newCustomFieldState env ` {fd \<in> set sch. fdCustomType fd \<noteq> notCustomEncodedField}
          = fdNumber ` {fd \<in> set sch. fdCustomType fd \<noteq> notCustomEncodedField}"
    by (simp add: image_image newCustomFieldState_def)
  then show ?thesis
    by (simp add: customAndProtoFields_def)
qed

section \<open>The claims\<close>

subsection \<open>Soft errors\<close>

text \<open>
  C1. An \<^verbatim>\<open>Encode\<close> call on a usable encoder with a schema, whose annotation does not
  unmarshal or unmarshals to a message with unknown fields, is a soft error: it returns
  the error, the stream is the same (no bit is written), \<^verbatim>\<open>numEncoded\<close>,
  \<^verbatim>\<open>stats.uncompressedBytes\<close> and \<^verbatim>\<open>lastEncodedDP\<close> are the same, and the encoder is
  still usable and still has its schema, so the next \<^verbatim>\<open>Encode\<close> passes the same checks.
\<close>

theorem Encode_soft_error:
  assumes "isUsable enc = None" and "schema enc = Some sch"
    and "Unmarshal env (case unmarshaled enc of None \<Rightarrow> NewMessage env sch | Some u \<Rightarrow> u)
           protoBytes = (uerr, m)"
    and "uerr \<noteq> None \<or> length (GetUnknownFields env m) > 0"
  shows "fst (Encode env dp timeUnit protoBytes enc)
           = Some (case uerr of Some cause \<Rightarrow> errUnmarshalingAnnotation cause
                              | None \<Rightarrow> errEncoderMessageHasUnknownFields)
         \<and> stream (snd (Encode env dp timeUnit protoBytes enc)) = stream enc
         \<and> numEncoded (snd (Encode env dp timeUnit protoBytes enc)) = numEncoded enc
         \<and> uncompressedBytes (stats (snd (Encode env dp timeUnit protoBytes enc)))
             = uncompressedBytes (stats enc)
         \<and> lastEncodedDP (snd (Encode env dp timeUnit protoBytes enc)) = lastEncodedDP enc
         \<and> isUsable (snd (Encode env dp timeUnit protoBytes enc)) = None
         \<and> schema (snd (Encode env dp timeUnit protoBytes enc)) = Some sch"
proof -
  have "Encode env dp timeUnit protoBytes enc =
         (Some (case uerr of Some c \<Rightarrow> errUnmarshalingAnnotation c
                           | None \<Rightarrow> errEncoderMessageHasUnknownFields),
          enc\<lparr>unmarshaled := Some m\<rparr>)"
    using assms by (auto simp: Encode_def Let_def split: option.splits)
  then show ?thesis using assms(1,2) by (auto simp: isUsable_def split: if_splits option.splits)
qed

theorem Encode_soft_error_witness:
  "isUsable (exampleEncoder bytesSchema) = None
   \<and> fst (Encode exampleEnv \<lparr>Timestamp = 5, Value = 9\<rparr> 1 [255] (exampleEncoder bytesSchema))
       = Some (errUnmarshalingAnnotation (errExternal 1))
   \<and> stream (snd (Encode exampleEnv \<lparr>Timestamp = 5, Value = 9\<rparr> 1 [255] (exampleEncoder bytesSchema)))
       = stream (exampleEncoder bytesSchema)
   \<and> numEncoded (snd (Encode exampleEnv \<lparr>Timestamp = 5, Value = 9\<rparr> 1 [255] (exampleEncoder bytesSchema)))
       = numEncoded (exampleEncoder bytesSchema)
   \<and> isUsable (snd (Encode exampleEnv \<lparr>Timestamp = 5, Value = 9\<rparr> 1 [255] (exampleEncoder bytesSchema)))
       = None
   \<and> fst (Encode exampleEnv \<lparr>Timestamp = 5, Value = 9\<rparr> 1 [254, 1] (exampleEncoder bytesSchema))
       = Some errEncoderMessageHasUnknownFields
   \<and> stream (snd (Encode exampleEnv \<lparr>Timestamp = 5, Value = 9\<rparr> 1 [254, 1] (exampleEncoder bytesSchema)))
       = stream (exampleEncoder bytesSchema)"
proof -
  let ?E = "exampleEncoder bytesSchema"
  have h1: "isUsable ?E = None" by code_simp
  have h2: "schema ?E = Some [\<lparr>fdNumber = 1, fdCustomType = bytesField\<rparr>]" by code_simp
  have h3: "Unmarshal exampleEnv
              (case unmarshaled ?E of
                 None \<Rightarrow> NewMessage exampleEnv [\<lparr>fdNumber = 1, fdCustomType = bytesField\<rparr>]
               | Some u \<Rightarrow> u) [255] = (Some (errExternal 1), [255])"
    by code_simp
  have h4: "Some (errExternal 1) \<noteq> None \<or> length (GetUnknownFields exampleEnv [255]) > 0" by simp
  have k3: "Unmarshal exampleEnv
              (case unmarshaled ?E of
                 None \<Rightarrow> NewMessage exampleEnv [\<lparr>fdNumber = 1, fdCustomType = bytesField\<rparr>]
               | Some u \<Rightarrow> u) [254, 1] = (None, [254, 1])"
    by code_simp
  have k4: "(None :: error option) \<noteq> None \<or> length (GetUnknownFields exampleEnv [254, 1]) > 0"
    by code_simp
  from Encode_soft_error [OF h1 h2 h3 h4, of "\<lparr>Timestamp = 5, Value = 9\<rparr>" 1]
       Encode_soft_error [OF h1 h2 k3 k4, of "\<lparr>Timestamp = 5, Value = 9\<rparr>" 1] h1
  show ?thesis by simp
qed

subsection \<open>Hard errors\<close>

text \<open>
  C2, as amended. When \<^verbatim>\<open>Encode\<close> fails in \<^verbatim>\<open>WriteTime\<close> or in the encoding of the
  fields, \<^verbatim>\<open>hardErr\<close> is the cause, and it is still the cause after every sequence of
  calls; from then on \<^verbatim>\<open>Encode\<close>, \<^verbatim>\<open>LastEncoded\<close> and \<^verbatim>\<open>Bytes\<close> return an error:
  the one that wraps the cause while the encoder is not closed, and
  \<^verbatim>\<open>errEncoderClosed\<close> once it is closed (\<^verbatim>\<open>isUsable\<close> tests \<^verbatim>\<open>closed\<close> first).
  \<^verbatim>\<open>Close\<close>, \<^verbatim>\<open>Reset\<close>, \<^verbatim>\<open>Discard\<close> and \<^verbatim>\<open>DiscardReset\<close> can still be called.
\<close>

theorem hard_error_sticky:
  assumes "Encode env dp timeUnit protoBytes enc = (Some (errEncodingTimestamp cause), enc1)
           \<or> Encode env dp timeUnit protoBytes enc = (Some (errEncodingProto cause), enc1)"
    and "run env calls enc1 = Some enc2"
  shows "hardErr enc1 = Some cause \<and> hardErr enc2 = Some cause
         \<and> fst (Encode env dp2 timeUnit2 protoBytes2 enc2)
             = Some (if closed enc2 then errEncoderClosed else errUnusableDueToHardErr cause)
         \<and> snd (fst (LastEncoded enc2))
             = Some (if closed enc2 then errEncoderClosed else errUnusableDueToHardErr cause)
         \<and> snd (Bytes enc2)
             = Some (if closed enc2 then errEncoderClosed else errUnusableDueToHardErr cause)
         \<and> run env [CallClose, CallReset start capacity descr, CallDiscard,
                     CallDiscardReset start capacity descr] enc2 \<noteq> None"
proof -
  have h1: "hardErr enc1 = Some cause"
  proof (cases rule: Encode_cases [of enc env dp timeUnit protoBytes])
    case (soft sch uerr m)
    with assms(1) show ?thesis by (auto split: option.splits)
  qed (use assms(1) in \<open>auto simp: isUsable_def split: if_splits option.splits\<close>)
  then have h2: "hardErr enc2 = Some cause" using run_hardErr [OF assms(2)] by simp
  then have u: "isUsable enc2 = Some (if closed enc2 then errEncoderClosed else errUnusableDueToHardErr cause)"
    by (simp add: isUsable_def)
  from h1 h2 u lifecycle_calls_run [of env start capacity descr enc2] show ?thesis
    by (simp add: Encode_def LastEncoded_def Bytes_def)
qed

theorem hard_error_sticky_witness:
  "fst (Encode exampleEnv \<lparr>Timestamp = - 5, Value = 0\<rparr> 1 [1, 2] (exampleEncoder bytesSchema))
     = Some (errEncodingTimestamp (errExternal 2))
   \<and> run exampleEnv [CallReset 7 0 (Some bytesSchema)]
        (snd (Encode exampleEnv \<lparr>Timestamp = - 5, Value = 0\<rparr> 1 [1, 2] (exampleEncoder bytesSchema)))
       \<noteq> None
   \<and> fst (Encode exampleEnv \<lparr>Timestamp = 5, Value = 0\<rparr> 1 [1, 2]
        (the (run exampleEnv [CallReset 7 0 (Some bytesSchema)]
           (snd (Encode exampleEnv \<lparr>Timestamp = - 5, Value = 0\<rparr> 1 [1, 2] (exampleEncoder bytesSchema))))))
       = Some (errUnusableDueToHardErr (errExternal 2))"
proof -
  let ?E = "exampleEncoder bytesSchema"
  let ?R = "Encode exampleEnv \<lparr>Timestamp = - 5, Value = 0\<rparr> 1 [1, 2] ?E"
  let ?run = "run exampleEnv [CallReset 7 0 (Some bytesSchema)] (snd ?R)"
  have h0: "fst ?R = Some (errEncodingTimestamp (errExternal 2))" by code_simp
  then have h: "?R = (Some (errEncodingTimestamp (errExternal 2)), snd ?R)
                \<or> ?R = (Some (errEncodingProto (errExternal 2)), snd ?R)"
    by (simp add: prod_eq_iff)
  have r0: "?run \<noteq> None" by (simp add: panicked_def)
  then have r: "?run = Some (the ?run)" by simp
  have c: "closed (the ?run) = False"
    by (simp add: panicked_def Reset_def reset_def Let_def split: option.splits)
  from hard_error_sticky [OF h r, of "\<lparr>Timestamp = 5, Value = 0\<rparr>" 1 "[1, 2]" 0 0 None] h0 r0 c
  show ?thesis by simp
qed

text \<open>The claim as stated fails after \<^verbatim>\<open>Close\<close>: the error of the next \<^verbatim>\<open>Encode\<close> is
  \<^verbatim>\<open>errEncoderClosed\<close>, which does not wrap the cause.\<close>

theorem hard_error_counterexample:
  "fst (Encode exampleEnv \<lparr>Timestamp = - 5, Value = 0\<rparr> 1 [1, 2] (exampleEncoder bytesSchema))
     = Some (errEncodingTimestamp (errExternal 2))
   \<and> hardErr (fst (Close exampleEnv
         (snd (Encode exampleEnv \<lparr>Timestamp = - 5, Value = 0\<rparr> 1 [1, 2] (exampleEncoder bytesSchema)))))
       = Some (errExternal 2)
   \<and> fst (Encode exampleEnv \<lparr>Timestamp = 5, Value = 0\<rparr> 1 [1, 2]
        (fst (Close exampleEnv
           (snd (Encode exampleEnv \<lparr>Timestamp = - 5, Value = 0\<rparr> 1 [1, 2] (exampleEncoder bytesSchema))))))
       = Some errEncoderClosed
   \<and> fst (Encode exampleEnv \<lparr>Timestamp = 5, Value = 0\<rparr> 1 [1, 2]
        (fst (Close exampleEnv
           (snd (Encode exampleEnv \<lparr>Timestamp = - 5, Value = 0\<rparr> 1 [1, 2] (exampleEncoder bytesSchema))))))
       \<noteq> Some (errUnusableDueToHardErr (errExternal 2))"
  by code_simp

subsection \<open>The buffer before the first sample\<close>




subsection \<open>The control prefix\<close>

text \<open>
  C6. For every accepted sample, the bits that \<^verbatim>\<open>Encode\<close> appends (after the stream
  header, when the sample is the first) start with the single bit 0 when neither the
  schema nor the time unit changed, and with the four bits 1, 1, timeUnitChange,
  schemaChange when one of them did; they never start with 1, 0.
\<close>

theorem Encode_control_prefix:
  assumes "Encode env dp timeUnit protoBytes enc = (None, enc')"
  shows "(let header = (if numEncoded enc = 0 then streamHeaderSpec env else []);
              timeUnitChange = (timeUnit \<noteq> TimeUnit env (timestampEncoder enc));
              schemaChange = (\<not> hasEncodedSchema enc)
          in prefix (stream enc @ header
                       @ (if schemaChange \<or> timeUnitChange
                          then [True, True, timeUnitChange, schemaChange] else [False]))
               (stream enc')
             \<and> \<not> prefix (stream enc @ header @ [True, False]) (stream enc'))"
proof (cases rule: Encode_cases [of enc env dp timeUnit protoBytes])
  case (ok e)
  let ?header = "if numEncoded enc = 0 then streamHeaderSpec env else []"
  let ?ctl = "controlPrefixSpec (timeUnit \<noteq> TimeUnit env (timestampEncoder enc)) (\<not> hasEncodedSchema enc)"
  from ok(2) assms have "stream enc' = stream e" by auto
  with ok(4) have p: "prefix (stream enc @ ?header @ ?ctl) (stream enc')" by simp
  then obtain rest where r: "stream enc' = stream enc @ ?header @ ?ctl @ rest"
    by (auto simp: prefix_def)
  have "\<not> prefix (stream enc @ ?header @ [True, False]) (stream enc')"
    unfolding r by (auto simp: controlPrefixSpec_def)
  with p show ?thesis by (simp add: Let_def controlPrefixSpec_def)
qed (use assms in auto)

theorem Encode_control_prefix_witness:
  "fst (Encode exampleEnv \<lparr>Timestamp = 5, Value = 9\<rparr> 1 [1, 2] (exampleEncoder bytesSchema)) = None
   \<and> prefix (streamHeaderSpec exampleEnv @ [True, True, False, True])
        (stream (snd (Encode exampleEnv \<lparr>Timestamp = 5, Value = 9\<rparr> 1 [1, 2] (exampleEncoder bytesSchema))))
   \<and> \<not> prefix (streamHeaderSpec exampleEnv @ [True, False])
        (stream (snd (Encode exampleEnv \<lparr>Timestamp = 5, Value = 9\<rparr> 1 [1, 2] (exampleEncoder bytesSchema))))"
proof -
  let ?E = "exampleEncoder bytesSchema"
  let ?R = "Encode exampleEnv \<lparr>Timestamp = 5, Value = 9\<rparr> 1 [1, 2] ?E"
  have h0: "fst ?R = None" by code_simp
  then have h: "?R = (None, snd ?R)" by (simp add: prod_eq_iff)
  have f: "stream ?E = []" "numEncoded ?E = 0" "hasEncodedSchema ?E = False"
    "TimeUnit exampleEnv (timestampEncoder ?E) = 1"
    by code_simp+
  from Encode_control_prefix [OF h] h0 f show ?thesis by (simp add: Let_def)
qed

subsection \<open>Stats\<close>



subsection \<open>Close\<close>

text \<open>
  C9. \<^verbatim>\<open>Close\<close> is idempotent: a second \<^verbatim>\<open>Close\<close> returns the encoder that the
  first one left and puts nothing into the pool. After \<^verbatim>\<open>Close\<close> the encoder is
  closed, and the \<^verbatim>\<open>Close\<close> that closes it puts it into the encoder pool when one is
  configured.
\<close>

theorem Close_idempotent:
  "Close env (fst (Close env enc)) = (fst (Close env enc), [])
   \<and> closed (fst (Close env enc))
   \<and> (\<not> closed enc \<longrightarrow>
        snd (Close env enc) = (if hasEncoderPool env then [fst (Close env enc)] else []))"
  by (simp add: Close_def Let_def)

theorem Close_idempotent_witness:
  "\<not> closed (exampleEncoder bytesSchema)
   \<and> closed (fst (Close exampleEnv (exampleEncoder bytesSchema)))
   \<and> snd (Close exampleEnv (exampleEncoder bytesSchema))
       = [fst (Close exampleEnv (exampleEncoder bytesSchema))]
   \<and> Close exampleEnv (fst (Close exampleEnv (exampleEncoder bytesSchema)))
       = (fst (Close exampleEnv (exampleEncoder bytesSchema)), [])"
proof -
  have a: "\<not> closed (exampleEncoder bytesSchema)" by code_simp
  have b: "hasEncoderPool exampleEnv" by code_simp
  from Close_idempotent [of exampleEnv "exampleEncoder bytesSchema"] a b show ?thesis by simp
qed


subsection \<open>The residual payload\<close>

text \<open>
  C3, as amended. For every sample whose residual path takes the changed branch, the
  encoder appends the bit 1, then 0, or 1 with the varint and the bits of the bitset,
  then the varint of the length and the marshaled bytes, at the bit position the stream
  is at: no padding bit is written between the control bits and the varint.
\<close>

theorem residual_changed_no_padding:
  assumes "protoFields enc \<noteq> []" and "schema enc = Some sch"
    and "protoFieldsLoop env sch (protoFields enc)
           (m, (case lastEncoded enc of None \<Rightarrow> NewMessage env sch | Some l \<Rightarrow> l), [], [])
         = (None, m', prev', changedFields, toDefault)"
    and "changedFields \<noteq> []" and "MarshalAppend env m' = Inr marshaled"
    and "fst (encodeProtoValues env m enc) = None"
  shows "stream (snd (encodeProtoValues env m enc)) =
           stream enc @ [True]
             @ (if toDefault = [] then [False]
                else [True]
                  @ bytesToBits (putUvarint (word_of_int
                       (foldl (\<lambda>mx v. if v > mx then v else mx) 0 toDefault)))
                  @ bitsetBits toDefault)
             @ bytesToBits (putUvarint (word_of_nat (length marshaled)))
             @ bytesToBits marshaled"
proof -
  let ?e = "enc\<lparr>lastEncoded := Some prev', unmarshaled := Some m', marshalBuf := marshaled\<rparr>"
  have eq: "encodeProtoValues env m enc = writeChangedProto toDefault marshaled ?e"
    using assms(4,5) by (simp add: encodeProtoValues_unfold [OF assms(1,2,3)])
  with assms(6) have "fst (writeChangedProto toDefault marshaled ?e) = None" by simp
  from writeChangedProto_None [OF this] show ?thesis unfolding eq by simp
qed

theorem residual_changed_no_padding_witness:
  "protoFields (exampleEncoder nestedSchema) \<noteq> []
   \<and> fst (encodeProtoValues exampleEnv [1, 2] (exampleEncoder nestedSchema)) = None
   \<and> stream (snd (encodeProtoValues exampleEnv [1, 2] (exampleEncoder nestedSchema)))
       = [True, False] @ bytesToBits (putUvarint 2) @ bytesToBits [1, 2]"
proof -
  let ?E = "exampleEncoder nestedSchema"
  have h1: "protoFields ?E \<noteq> []" by code_simp
  have h2: "schema ?E = Some [\<lparr>fdNumber = 1, fdCustomType = notCustomEncodedField\<rparr>]" by code_simp
  have h3: "protoFieldsLoop exampleEnv [\<lparr>fdNumber = 1, fdCustomType = notCustomEncodedField\<rparr>]
              (protoFields ?E)
              ([1, 2], (case lastEncoded ?E of
                          None \<Rightarrow> NewMessage exampleEnv [\<lparr>fdNumber = 1, fdCustomType = notCustomEncodedField\<rparr>]
                        | Some l \<Rightarrow> l), [], [])
            = (None, [1, 2], [1, 2], [1], [])"
    by code_simp
  have h4: "[1 :: int] \<noteq> []" by simp
  have h5: "MarshalAppend exampleEnv [1, 2] = Inr [1, 2]" by code_simp
  have h6: "fst (encodeProtoValues exampleEnv [1, 2] ?E) = None" by code_simp
  have s: "stream ?E = []" by code_simp
  from residual_changed_no_padding [OF h1 h2 h3 h4 h5 h6] h1 h6 s
  show ?thesis by simp
qed

text \<open>The claim as stated fails on the first sample of a schema with one residual field:
  the varint of the length starts 31 bits into the stream, and the procedure of the
  specification would write six padding bits that the encoder does not write.\<close>

theorem residual_padding_counterexample:
  "stream (sampleEncoder nestedSchema)
     = streamHeaderSpec exampleEnv @ [True, True, False, True] @ bytesToBits (putUvarint 0)
         @ [False] @ [True, False] @ bytesToBits (putUvarint 2) @ bytesToBits [1, 2]
   \<and> length (streamHeaderSpec exampleEnv @ [True, True, False, True] @ bytesToBits (putUvarint 0)
         @ [False] @ [True, False]) mod 8 = 7
   \<and> stream (snd (writeChangedProto [] [1, 2] (exampleEncoder nestedSchema)))
       = [True, False] @ bytesToBits (putUvarint 2) @ bytesToBits [1, 2]
   \<and> stream (snd (writeChangedProtoSpec [] [1, 2] (exampleEncoder nestedSchema)))
       = [True, False] @ replicate 6 False @ bytesToBits (putUvarint 2) @ bytesToBits [1, 2]"
  by code_simp

subsection \<open>The bytes fields\<close>

text \<open>
  C5, as amended. For every write of a bytes or string value to a custom field whose
  dictionary lies within the whole bytes of the stream, with a dictionary size of at
  least 1 and a value shorter than \<open>2\<^sup>5\<^sup>6\<close> bytes, \<^verbatim>\<open>encodeBytesValue\<close> returns no error and does what
  the decision procedure of the specification says: a single 0 and the same dictionary
  when the tail entry has the hash and the bytes; else 1, and 0 with the index of the
  first entry that matches, which moves to the tail; else 1, the varint of the length,
  0 bits up to the next byte boundary, the bytes, and a new entry at the tail that
  starts where the bytes begin, the head being evicted when the dictionary is full.
  The new dictionary lies within the whole bytes of the new stream.
\<close>

theorem encodeBytesValue_procedure:
  assumes "i < length (customFields enc)"
    and "bytesOfValue iVal = Some cur"
    and "dictInStream (stream enc) (bytesFieldDict (customFields enc ! i))"
    and "1 \<le> ByteFieldDictionaryLRUSize env"
    and "length cur < 2 ^ 56"
  shows "encodeBytesValue env i iVal enc =
           (None, setBytesFieldDict i
                    (snd (bytesValueSpec env (stream enc) (bytesFieldDict (customFields enc ! i)) cur))
                    (enc\<lparr>stream :=
                       fst (bytesValueSpec env (stream enc) (bytesFieldDict (customFields enc ! i)) cur)\<rparr>))
         \<and> dictInStream
             (fst (bytesValueSpec env (stream enc) (bytesFieldDict (customFields enc ! i)) cur))
             (snd (bytesValueSpec env (stream enc) (bytesFieldDict (customFields enc ! i)) cur))"
  using encodeBytesValue_spec [OF assms] bytesValueSpec_inv [OF assms(3)] by simp

theorem encodeBytesValue_procedure_witness:
  "0 < length (customFields (sampleEncoder bytesSchema))
   \<and> dictInStream (stream (sampleEncoder bytesSchema))
         (bytesFieldDict (customFields (sampleEncoder bytesSchema) ! 0))
   \<and> fst (encodeBytesValue exampleEnv 0 (VBytes [1, 2]) (sampleEncoder bytesSchema)) = None
   \<and> stream (snd (encodeBytesValue exampleEnv 0 (VBytes [1, 2]) (sampleEncoder bytesSchema)))
       = stream (sampleEncoder bytesSchema) @ [False]
   \<and> bytesFieldDict (customFields
         (snd (encodeBytesValue exampleEnv 0 (VBytes [1, 2]) (sampleEncoder bytesSchema))) ! 0)
       = [\<lparr>hash = 2, startPos = 6, lengthD = 2\<rparr>]
   \<and> fst (encodeBytesValue exampleEnv 0 (VString [7]) (sampleEncoder bytesSchema)) = None
   \<and> stream (snd (encodeBytesValue exampleEnv 0 (VString [7]) (sampleEncoder bytesSchema)))
       = stream (sampleEncoder bytesSchema) @ [True, True] @ bytesToBits [1]
           @ replicate 5 False @ bytesToBits [7]
   \<and> bytesFieldDict (customFields
         (snd (encodeBytesValue exampleEnv 0 (VString [7]) (sampleEncoder bytesSchema))) ! 0)
       = [\<lparr>hash = 2, startPos = 6, lengthD = 2\<rparr>, \<lparr>hash = 1, startPos = 10, lengthD = 1\<rparr>]
   \<and> dictInStream (stream sampleEncoder2) (bytesFieldDict (customFields sampleEncoder2 ! 0))
   \<and> fst (encodeBytesValue exampleEnv 0 (VBytes [1, 2]) sampleEncoder2) = None
   \<and> stream (snd (encodeBytesValue exampleEnv 0 (VBytes [1, 2]) sampleEncoder2))
       = stream sampleEncoder2 @ [True, False] @ [False, False]
   \<and> bytesFieldDict (customFields
         (snd (encodeBytesValue exampleEnv 0 (VBytes [1, 2]) sampleEncoder2)) ! 0)
       = [\<lparr>hash = 1, startPos = 10, lengthD = 1\<rparr>, \<lparr>hash = 2, startPos = 6, lengthD = 2\<rparr>]"
proof -
  let ?E = "sampleEncoder bytesSchema"
  let ?F = "sampleEncoder2"
  have h1: "0 < length (customFields ?E)" by code_simp
  have g1: "0 < length (customFields ?F)" by code_simp
  have h2: "bytesOfValue (VBytes [1, 2]) = Some [1, 2]" by (simp add: bytesOfValue_def)
  have k2: "bytesOfValue (VString [7]) = Some [7]" by (simp add: bytesOfValue_def)
  have h3: "dictInStream (stream ?E) (bytesFieldDict (customFields ?E ! 0))" by code_simp
  have g3: "dictInStream (stream ?F) (bytesFieldDict (customFields ?F ! 0))" by code_simp
  have h4: "1 \<le> ByteFieldDictionaryLRUSize exampleEnv" by code_simp
  have h5: "length [1, 2 :: byte] < 2 ^ 56" by simp
  have k5: "length [7 :: byte] < 2 ^ 56" by simp
  have s1: "bytesValueSpec exampleEnv (stream ?E) (bytesFieldDict (customFields ?E ! 0)) [1, 2]
              = (stream ?E @ [False], [\<lparr>hash = 2, startPos = 6, lengthD = 2\<rparr>])"
    by code_simp
  have s2: "bytesValueSpec exampleEnv (stream ?E) (bytesFieldDict (customFields ?E ! 0)) [7]
              = (stream ?E @ [True, True] @ bytesToBits [1] @ replicate 5 False @ bytesToBits [7],
                 [\<lparr>hash = 2, startPos = 6, lengthD = 2\<rparr>, \<lparr>hash = 1, startPos = 10, lengthD = 1\<rparr>])"
    by code_simp
  have s3: "bytesValueSpec exampleEnv (stream ?F) (bytesFieldDict (customFields ?F ! 0)) [1, 2]
              = (stream ?F @ [True, False] @ [False, False],
                 [\<lparr>hash = 1, startPos = 10, lengthD = 1\<rparr>, \<lparr>hash = 2, startPos = 6, lengthD = 2\<rparr>])"
    by code_simp
  from encodeBytesValue_procedure [OF h1 h2 h3 h4 h5] encodeBytesValue_procedure [OF h1 k2 h3 h4 k5]
       encodeBytesValue_procedure [OF g1 h2 g3 h4 h5] h1 g1 h3 g3
  show ?thesis unfolding s1 s2 s3 by (simp add: setBytesFieldDict_def)
qed

text \<open>The claim as stated fails with a dictionary of size 0: the first value of a bytes
  field takes the new-literal path, and where the procedure of the specification appends
  an entry, \<^verbatim>\<open>addToBytesDict\<close> panics and the dictionary stays empty.\<close>

theorem encodeBytesValue_size0_counterexample:
  "bytesOfValue (VBytes [7]) = Some [7]
   \<and> dictInStream (stream exampleEncoder0) (bytesFieldDict (customFields exampleEncoder0 ! 0))
   \<and> ByteFieldDictionaryLRUSize exampleEnv0 = 0
   \<and> fst (encodeBytesValue exampleEnv0 0 (VBytes [7]) exampleEncoder0)
       = Some (panicIndexOutOfRange (- 1) 0)
   \<and> bytesFieldDict (customFields
         (snd (encodeBytesValue exampleEnv0 0 (VBytes [7]) exampleEncoder0)) ! 0) = []
   \<and> snd (bytesValueSpec exampleEnv0 (stream exampleEncoder0)
            (bytesFieldDict (customFields exampleEncoder0 ! 0)) [7])
       = [\<lparr>hash = 1, startPos = 2, lengthD = 1\<rparr>]"
  by code_simp

subsection \<open>The index of the eviction\<close>

text \<open>
  C10. With a dictionary size of at least 1, \<^verbatim>\<open>addToBytesDict\<close> does not index out of
  range, and no write of a bytes field ends in that panic; with a size of 0 and an empty
  dictionary, the write to index \<open>len(existing)-1\<close> is the index \<open>-1\<close> of an empty
  slice, and the first new literal of a bytes field panics.
\<close>

theorem addToBytesDict_in_bounds:
  "(1 \<le> ByteFieldDictionaryLRUSize env \<longrightarrow>
      fst (addToBytesDict env fieldIdx state enc) = None
      \<and> fst (encodeBytesValue env fieldIdx iVal enc) \<noteq> Some (panicIndexOutOfRange (- 1) n))
   \<and> (ByteFieldDictionaryLRUSize env = 0 \<and> bytesFieldDict (customFields enc ! fieldIdx) = [] \<longrightarrow>
      fst (addToBytesDict env fieldIdx state enc) = Some (panicIndexOutOfRange (- 1) 0)
      \<and> (bytesOfValue iVal = Some cur \<and> length cur < 2 ^ 56 \<longrightarrow>
           fst (encodeBytesValue env fieldIdx iVal enc) = Some (panicIndexOutOfRange (- 1) 0)))"
  using encodeBytesValue_no_index_panic [of env fieldIdx iVal enc n]
    encodeBytesValue_size0_panic [of env enc fieldIdx iVal cur]
  by (auto simp: addToBytesDict_eq Let_def)

theorem addToBytesDict_in_bounds_witness:
  "1 \<le> ByteFieldDictionaryLRUSize exampleEnv
   \<and> fst (addToBytesDict exampleEnv 0 \<lparr>hash = 1, startPos = 11, lengthD = 1\<rparr>
            (sampleEncoder bytesSchema)) = None
   \<and> ByteFieldDictionaryLRUSize exampleEnv0 = 0
   \<and> bytesFieldDict (customFields exampleEncoder0 ! 0) = []
   \<and> fst (addToBytesDict exampleEnv0 0 \<lparr>hash = 1, startPos = 11, lengthD = 1\<rparr> exampleEncoder0)
       = Some (panicIndexOutOfRange (- 1) 0)
   \<and> fst (encodeBytesValue exampleEnv0 0 (VBytes [7]) exampleEncoder0)
       = Some (panicIndexOutOfRange (- 1) 0)"
proof -
  have a: "1 \<le> ByteFieldDictionaryLRUSize exampleEnv" by code_simp
  have b: "ByteFieldDictionaryLRUSize exampleEnv0 = 0" by code_simp
  have c: "bytesFieldDict (customFields exampleEncoder0 ! 0) = []" by code_simp
  have d: "bytesOfValue (VBytes [7]) = Some [7]" by (simp add: bytesOfValue_def)
  have e: "length [7 :: byte] < 2 ^ 56" by simp
  from addToBytesDict_in_bounds
         [of exampleEnv 0 "\<lparr>hash = 1, startPos = 11, lengthD = 1\<rparr>" "sampleEncoder bytesSchema"
             "VBytes [7]" 0 "[7]"]
       addToBytesDict_in_bounds
         [of exampleEnv0 0 "\<lparr>hash = 1, startPos = 11, lengthD = 1\<rparr>" exampleEncoder0
             "VBytes [7]" 0 "[7]"]
       a b c d e
  show ?thesis by simp
qed

subsection \<open>SetSchema\<close>

text \<open>
  C8. \<^verbatim>\<open>SetSchema(descr)\<close> with a descriptor that is not nil: when the encoder has a
  schema descriptor and the deploy id of \<open>descr\<close> is not empty and equal to the current
  one, the encoder is unchanged. Otherwise the descriptor and its message descriptor are
  stored, the fields are classified again (custom fields sorted by number, the other
  fields residual, in the descriptor's order), \<^verbatim>\<open>hasEncodedSchema\<close> is false, and the
  next accepted \<^verbatim>\<open>Encode\<close> writes the control prefix 1, 1, timeUnitChange, 1.
\<close>

theorem SetSchema_descr:
  "(schemaDesc enc = Some cur \<and> DeployId d \<noteq> [] \<and> DeployId cur = DeployId d
      \<longrightarrow> SetSchema env (Some d) enc = enc)
   \<and> ((\<forall>c. schemaDesc enc = Some c \<longrightarrow> DeployId d = [] \<or> DeployId c \<noteq> DeployId d)
      \<longrightarrow> schemaDesc (SetSchema env (Some d) enc) = Some d
        \<and> schema (SetSchema env (Some d) enc) = Some (MessageDescriptor d)
        \<and> hasEncodedSchema (SetSchema env (Some d) enc) = False
        \<and> (customFields (SetSchema env (Some d) enc), protoFields (SetSchema env (Some d) enc))
            = customAndProtoFields env (MessageDescriptor d)
        \<and> sorted (map fieldNum (customFields (SetSchema env (Some d) enc)))
        \<and> set (map fieldNum (customFields (SetSchema env (Some d) enc)))
            = fdNumber ` {fd \<in> set (MessageDescriptor d). fdCustomType fd \<noteq> notCustomEncodedField}
        \<and> protoFields (SetSchema env (Some d) enc)
            = map fdNumber (filter (\<lambda>fd. fdCustomType fd = notCustomEncodedField) (MessageDescriptor d))
        \<and> (Encode env dp timeUnit protoBytes (SetSchema env (Some d) enc) = (None, enc')
            \<longrightarrow> prefix (stream enc
                          @ (if numEncoded enc = 0 then streamHeaderSpec env else [])
                          @ [True, True, timeUnit \<noteq> TimeUnit env (timestampEncoder enc), True])
                  (stream enc')))"
proof (rule conjI; rule impI)
  assume "schemaDesc enc = Some cur \<and> DeployId d \<noteq> [] \<and> DeployId cur = DeployId d"
  then show "SetSchema env (Some d) enc = enc" by (simp add: SetSchema_def)
next
  assume a: "\<forall>c. schemaDesc enc = Some c \<longrightarrow> DeployId d = [] \<or> DeployId c \<noteq> DeployId d"
  let ?e = "SetSchema env (Some d) enc"
  have eq: "?e = resetSchema env (Some (MessageDescriptor d)) (enc\<lparr>schemaDesc := Some d\<rparr>)"
    using a by (auto simp: SetSchema_def split: option.splits)
  have f: "schemaDesc ?e = Some d" "schema ?e = Some (MessageDescriptor d)"
    "hasEncodedSchema ?e = False"
    "customFields ?e = fst (customAndProtoFields env (MessageDescriptor d))"
    "protoFields ?e = snd (customAndProtoFields env (MessageDescriptor d))"
    "stream ?e = stream enc" "numEncoded ?e = numEncoded enc"
    "timestampEncoder ?e = timestampEncoder enc"
    unfolding eq by (simp_all add: resetSchema_def)
  have p: "prefix (stream enc @ (if numEncoded enc = 0 then streamHeaderSpec env else [])
                     @ [True, True, timeUnit \<noteq> TimeUnit env (timestampEncoder enc), True])
             (stream enc')"
    if e: "Encode env dp timeUnit protoBytes ?e = (None, enc')"
  proof (cases rule: Encode_cases [of ?e env dp timeUnit protoBytes])
    case (ok e1)
    from ok(2) e have "stream enc' = stream e1" by auto
    with ok(4) show ?thesis by (simp add: f controlPrefixSpec_def)
  qed (use e in auto)
  show "schemaDesc ?e = Some d
        \<and> schema ?e = Some (MessageDescriptor d)
        \<and> hasEncodedSchema ?e = False
        \<and> (customFields ?e, protoFields ?e) = customAndProtoFields env (MessageDescriptor d)
        \<and> sorted (map fieldNum (customFields ?e))
        \<and> set (map fieldNum (customFields ?e))
            = fdNumber ` {fd \<in> set (MessageDescriptor d). fdCustomType fd \<noteq> notCustomEncodedField}
        \<and> protoFields ?e
            = map fdNumber (filter (\<lambda>fd. fdCustomType fd = notCustomEncodedField) (MessageDescriptor d))
        \<and> (Encode env dp timeUnit protoBytes ?e = (None, enc')
            \<longrightarrow> prefix (stream enc
                          @ (if numEncoded enc = 0 then streamHeaderSpec env else [])
                          @ [True, True, timeUnit \<noteq> TimeUnit env (timestampEncoder enc), True])
                  (stream enc'))"
    using customAndProtoFields_classifies [of env "MessageDescriptor d"] p
    by (simp add: f prod_eq_iff)
qed

theorem SetSchema_descr_witness:
  "schemaDesc (sampleEncoder bytesSchema) = Some bytesSchema
   \<and> SetSchema exampleEnv (Some bytesSchema) (sampleEncoder bytesSchema) = sampleEncoder bytesSchema
   \<and> hasEncodedSchema (sampleEncoder bytesSchema) = True
   \<and> hasEncodedSchema (SetSchema exampleEnv (Some nestedSchema) (sampleEncoder bytesSchema)) = False
   \<and> customFields (SetSchema exampleEnv (Some nestedSchema) (sampleEncoder bytesSchema)) = []
   \<and> protoFields (SetSchema exampleEnv (Some nestedSchema) (sampleEncoder bytesSchema)) = [1]
   \<and> fst (Encode exampleEnv \<lparr>Timestamp = 6, Value = 0\<rparr> 1 [1, 2]
            (SetSchema exampleEnv (Some nestedSchema) (sampleEncoder bytesSchema))) = None
   \<and> prefix (stream (sampleEncoder bytesSchema) @ [True, True, False, True])
        (stream (snd (Encode exampleEnv \<lparr>Timestamp = 6, Value = 0\<rparr> 1 [1, 2]
            (SetSchema exampleEnv (Some nestedSchema) (sampleEncoder bytesSchema)))))"
proof -
  let ?E = "sampleEncoder bytesSchema"
  let ?R = "Encode exampleEnv \<lparr>Timestamp = 6, Value = 0\<rparr> 1 [1, 2]
              (SetSchema exampleEnv (Some nestedSchema) ?E)"
  have a: "schemaDesc ?E = Some bytesSchema" by code_simp
  have b: "DeployId bytesSchema \<noteq> []" "DeployId bytesSchema \<noteq> DeployId nestedSchema" by code_simp+
  have c: "hasEncodedSchema ?E = True" "numEncoded ?E \<noteq> 0" "TimeUnit exampleEnv (timestampEncoder ?E) = 1"
    by code_simp+
  have d: "customAndProtoFields exampleEnv (MessageDescriptor nestedSchema) = ([], [1])" by code_simp
  have r0: "fst ?R = None" by code_simp
  then have r: "?R = (None, snd ?R)" by (simp add: prod_eq_iff)
  from SetSchema_descr [of ?E bytesSchema bytesSchema exampleEnv]
       SetSchema_descr [of ?E bytesSchema nestedSchema exampleEnv "\<lparr>Timestamp = 6, Value = 0\<rparr>" 1 "[1, 2]" "snd ?R"]
       a b c d r0 r
  show ?thesis by simp
qed

end
